theory Spec2Isabelle
  imports Complex_Main "HOL-Library.Multiset"
begin

section \<open>The audio graph, as the synthesizer sees it\<close>

text \<open>
  JavaScript numbers are modelled as reals. An \<open>AudioParam\<close> is the pair of what its
  \<open>.value\<close> getter returns and the automation calls that were scheduled on it since the
  last cancellation, in call order. Scheduling changes the schedule only: the value read
  by the script changes when the audio thread renders (see \<open>Render\<close> below).
\<close>

datatype automation =
    SetValueAtTime real real
  | LinearRampToValueAtTime real real
  | ExponentialRampToValueAtTime real real

fun atTime :: "automation \<Rightarrow> real" where
  "atTime (SetValueAtTime v t) = t"
| "atTime (LinearRampToValueAtTime v t) = t"
| "atTime (ExponentialRampToValueAtTime v t) = t"

record AudioParam =
  pvalue :: real
  events :: "automation list"

definition cancelScheduledValues :: "real \<Rightarrow> AudioParam \<Rightarrow> AudioParam" where
  "cancelScheduledValues t p = p\<lparr>events := filter (\<lambda>e. atTime e < t) (events p)\<rparr>"

definition setValueAtTime :: "real \<Rightarrow> real \<Rightarrow> AudioParam \<Rightarrow> AudioParam" where
  "setValueAtTime v t p = p\<lparr>events := events p @ [SetValueAtTime v t]\<rparr>"

definition linearRampToValueAtTime :: "real \<Rightarrow> real \<Rightarrow> AudioParam \<Rightarrow> AudioParam" where
  "linearRampToValueAtTime v t p = p\<lparr>events := events p @ [LinearRampToValueAtTime v t]\<rparr>"

definition exponentialRampToValueAtTime :: "real \<Rightarrow> real \<Rightarrow> AudioParam \<Rightarrow> AudioParam" where
  "exponentialRampToValueAtTime v t p = p\<lparr>events := events p @ [ExponentialRampToValueAtTime v t]\<rparr>"

text \<open>\<open>audioContext.createOscillator()\<close>: a sine at 440 Hz, not detuned, not yet started.\<close>

record OscillatorNode =
  otype :: string
  frequency :: real
  odetune :: real
  connected :: bool
  started :: bool
  stopped :: bool

definition createOscillator :: OscillatorNode where
  "createOscillator =
     \<lparr>otype = ''sine'', frequency = 440, odetune = 0,
      connected = False, started = False, stopped = False\<rparr>"

text \<open>An offset of a fresh \<open>ConstantSourceNode\<close> reads 1; a fresh gain reads 1.\<close>

definition newParam :: "real \<Rightarrow> AudioParam" where
  "newParam v = \<lparr>pvalue = v, events = []\<rparr>"

section \<open>soundOscillator.js\<close>

record SoundOscillator =
  voices :: nat
  detune :: real
  oscillators :: "OscillatorNode list"
  gain :: AudioParam
  gainToFilter :: bool
  fType :: string
  fFrequency :: real
  fQ :: real
  filterToDestination :: bool
  maxOscVol :: real
  attackProgress :: AudioParam
  decayProgress :: AudioParam
  releaseProgress :: AudioParam

text \<open>
  The loop of \<open>setType\<close>: \<open>i\<close> counts the oscillators made so far, \<open>evens\<close> is the
  multiple of the detune the next pair gets.
\<close>

function setTypeLoop ::
  "nat \<Rightarrow> real \<Rightarrow> nat \<Rightarrow> int \<Rightarrow> OscillatorNode list \<Rightarrow> OscillatorNode list" where
  "setTypeLoop vs d i evens oscs =
     (if i < vs then
        (if i > 0 then
           (if i mod 2 = 1
            then setTypeLoop vs d (i + 1) evens
                   (oscs @ [createOscillator\<lparr>odetune := d * real_of_int evens\<rparr>])
            else setTypeLoop vs d (i + 1) (evens + 1)
                   (oscs @ [createOscillator\<lparr>odetune := d * real_of_int (- evens)\<rparr>]))
         else setTypeLoop vs d (i + 1) evens (oscs @ [createOscillator]))
      else oscs)"
  by pat_completeness auto
termination
  by (relation "measure (\<lambda>(vs, d, i, evens, oscs). vs - i)") auto

declare setTypeLoop.simps [simp del]

text \<open>Both branches of \<open>setType\<close> run the same loop (the sampler one is a placeholder).\<close>

definition setType :: "string \<Rightarrow> nat \<Rightarrow> real \<Rightarrow> OscillatorNode list" where
  "setType ty vs d =
     (if ty = ''synth'' then setTypeLoop vs d 0 1 [] else setTypeLoop vs d 0 1 [])"

definition newSoundOscillator :: "nat \<Rightarrow> real \<Rightarrow> string \<Rightarrow> SoundOscillator" where
  "newSoundOscillator vs d ty =
     \<lparr>voices = vs, detune = d, oscillators = setType ty vs d,
      gain = newParam 1, gainToFilter = False,
      fType = ''lowpass'', fFrequency = 350, fQ = 1, filterToDestination = False,
      maxOscVol = 1,
      attackProgress = newParam 1, decayProgress = newParam 1, releaseProgress = newParam 1\<rparr>"

definition createSOsc ::
  "nat \<Rightarrow> real \<Rightarrow> string \<Rightarrow> real \<Rightarrow> real \<Rightarrow> string \<Rightarrow> real \<Rightarrow> real \<Rightarrow> SoundOscillator" where
  "createSOsc vs d oType oVol freq fTy fFreq fQValue =
     (let o1 = newSoundOscillator vs d ''synth'';
          o2 = o1\<lparr>oscillators := map (\<lambda>osc. osc\<lparr>otype := oType\<rparr>) (oscillators o1)\<rparr>;
          o3 = o2\<lparr>oscillators := map (\<lambda>osc. osc\<lparr>frequency := freq\<rparr>) (oscillators o2)\<rparr>;
          o4 = o3\<lparr>fType := fTy, fFrequency := fFreq, fQ := fQValue\<rparr>;
          o5 = o4\<lparr>gain := (gain o4)\<lparr>pvalue := 0.001\<rparr>, maxOscVol := oVol\<rparr>;
          o6 = o5\<lparr>oscillators := map (\<lambda>osc. osc\<lparr>connected := True\<rparr>) (oscillators o5),
                  gainToFilter := True\<rparr>
      in o6\<lparr>oscillators := map (\<lambda>osc. osc\<lparr>started := True\<rparr>) (oscillators o6)\<rparr>)"

section \<open>JavaScript arrays with holes\<close>

text \<open>
  \<open>noteOnList\<close> and \<open>noteOffList\<close> are arrays indexed by the MIDI note (a natural
  number here); an index that was never assigned is a hole and reads \<open>undefined\<close>
  (\<open>None\<close>). Assigning past the end extends the array with holes.
\<close>

type_synonym 'a jsarray = "'a option list"

fun elemAt :: "'a jsarray \<Rightarrow> nat \<Rightarrow> 'a option" where
  "elemAt [] i = None"
| "elemAt (x # xs) 0 = x"
| "elemAt (x # xs) (Suc i) = elemAt xs i"

fun assign :: "'a jsarray \<Rightarrow> nat \<Rightarrow> 'a \<Rightarrow> 'a jsarray" where
  "assign [] 0 v = [Some v]"
| "assign [] (Suc i) v = None # assign [] i v"
| "assign (x # xs) 0 v = Some v # xs"
| "assign (x # xs) (Suc i) v = x # assign xs i v"

text \<open>The voices of one note, and all the voices an array holds.\<close>

definition stack :: "'a list jsarray \<Rightarrow> nat \<Rightarrow> 'a list" where
  "stack xs n = (case elemAt xs n of None \<Rightarrow> [] | Some vs \<Rightarrow> vs)"

fun members :: "'a list jsarray \<Rightarrow> 'a list" where
  "members [] = []"
| "members (None # xs) = members xs"
| "members (Some vs # xs) = vs @ members xs"

section \<open>synthesizer.js\<close>

text \<open>
  A pending \<open>setTimeout\<close> of the host: its id, when it is due (milliseconds), the delay
  that was asked for, and the note its callback was given. Every timeout of the
  synthesizer is armed by \<open>release\<close> and runs the same callback.
\<close>

record timer =
  tid :: nat
  due :: real
  delay :: real
  tnote :: nat

text \<open>
  The state of a run: the fields of the \<open>Synthesizer\<close> object that the note functions
  and the envelope setters use, and the parts of the host they act on. Voices are
  objects: \<open>heap\<close> holds every \<open>SoundOscillator\<close> created so far and the note lists hold
  references (indices) into it; a reference is made by \<open>noteOn\<close> only, for the voice it
  has just put on the heap, so none dangles. \<open>clock\<close> is the time in milliseconds, and
  \<open>audioContext.currentTime\<close> is the same time in seconds. The effect list, the filter
  envelope and the destination are fields that no function below reads.
\<close>

record Synthesizer =
  noteOnList :: "nat list jsarray"
  noteOffList :: "nat list jsarray"
  timeOutList :: "nat list"
  s_oscType :: string
  s_filterType :: string
  s_maxVolume :: real
  s_voices :: nat
  s_detune :: real
  s_filterFrequency :: real
  s_filterBandwidth :: real
  s_geA :: real
  s_geD :: real
  s_geS :: real
  s_geR :: real
  heap :: "SoundOscillator list"
  clock :: real
  pending :: "timer list"
  nextTimeout :: nat

definition newSynthesizer :: "string \<Rightarrow> string \<Rightarrow> Synthesizer" where
  "newSynthesizer oscTypeI filterType =
     \<lparr>noteOnList = [], noteOffList = [], timeOutList = [],
      s_oscType = oscTypeI, s_filterType = filterType,
      s_maxVolume = 1, s_voices = 1, s_detune = 0,
      s_filterFrequency = 24000, s_filterBandwidth = 1,
      s_geA = 96, s_geD = 224, s_geS = 0.25, s_geR = 1080,
      heap = [], clock = 0, pending = [], nextTimeout = 0\<rparr>"

definition currentTime :: "Synthesizer \<Rightarrow> real" where
  "currentTime s = clock s / 1000"

datatype js_error = TypeError

text \<open>What a call does: it returns, or it throws and leaves the state as it was then.\<close>

datatype outcome = Done Synthesizer | Throws js_error Synthesizer

fun after :: "outcome \<Rightarrow> Synthesizer" where
  "after (Done s) = s"
| "after (Throws e s) = s"

subsection \<open>The host's timers\<close>

definition setTimeout :: "nat \<Rightarrow> real \<Rightarrow> Synthesizer \<Rightarrow> nat \<times> Synthesizer" where
  "setTimeout note ms s =
     (nextTimeout s,
      s\<lparr>pending := pending s @
           [\<lparr>tid = nextTimeout s, due = clock s + max 0 ms, delay = ms, tnote = note\<rparr>],
        nextTimeout := Suc (nextTimeout s)\<rparr>)"

definition clearTimeout :: "nat \<Rightarrow> Synthesizer \<Rightarrow> Synthesizer" where
  "clearTimeout i s = s\<lparr>pending := filter (\<lambda>t. tid t \<noteq> i) (pending s)\<rparr>"

subsection \<open>Voices on the heap\<close>

definition updVoice :: "nat \<Rightarrow> (SoundOscillator \<Rightarrow> SoundOscillator) \<Rightarrow> Synthesizer \<Rightarrow> Synthesizer" where
  "updVoice r f s =
     (if r < length (heap s) then s\<lparr>heap := (heap s)[r := f (heap s ! r)]\<rparr> else s)"

definition stopAll :: "SoundOscillator \<Rightarrow> SoundOscillator" where
  "stopAll o1 = o1\<lparr>oscillators := map (\<lambda>osc. osc\<lparr>stopped := True\<rparr>) (oscillators o1)\<rparr>"

definition silent :: "SoundOscillator \<Rightarrow> bool" where
  "silent o1 = list_all stopped (oscillators o1)"

subsection \<open>Note play and panic functions\<close>

definition noteFreq :: "nat \<Rightarrow> real" where
  "noteFreq note = 440 * 2 powr ((real note - 69) / 12)"

definition cancelAndHold :: "Synthesizer \<Rightarrow> bool \<Rightarrow> AudioParam \<Rightarrow> AudioParam" where
  "cancelAndHold s now oscParam =
     (let oldValue = pvalue oscParam;
          p1 = (if now then cancelScheduledValues 0 oscParam else oscParam)
      in linearRampToValueAtTime oldValue (if now then 0 else currentTime s) p1)"

definition decay :: "Synthesizer \<Rightarrow> AudioParam \<Rightarrow> real \<Rightarrow> real \<Rightarrow> AudioParam" where
  "decay s oscParam att dec =
     linearRampToValueAtTime (s_geS s) (currentTime s + (dec + att) / 1000)
       (cancelAndHold s False oscParam)"

definition attack :: "Synthesizer \<Rightarrow> AudioParam \<Rightarrow> real \<Rightarrow> AudioParam" where
  "attack s oscParam att =
     decay s
       (exponentialRampToValueAtTime 0.993 (currentTime s + att / 1000)
          (cancelAndHold s True oscParam))
       att (s_geD s)"

definition checkNoteOn :: "nat \<Rightarrow> Synthesizer \<Rightarrow> bool" where
  "checkNoteOn note s =
     (case elemAt (noteOnList s) note of None \<Rightarrow> False | Some vs \<Rightarrow> length vs > 0)"

definition checkNoteOff :: "nat \<Rightarrow> Synthesizer \<Rightarrow> bool" where
  "checkNoteOff note s =
     (case elemAt (noteOffList s) note of None \<Rightarrow> False | Some vs \<Rightarrow> length vs > 0)"

definition noteOn :: "nat \<Rightarrow> Synthesizer \<Rightarrow> Synthesizer" where
  "noteOn note s =
     (let createdOsc = createSOsc (s_voices s) (s_detune s) (s_oscType s) (s_maxVolume s)
                         (noteFreq note) (s_filterType s) (s_filterFrequency s)
                         (s_filterBandwidth s);
          r = length (heap s);
          onList = (case elemAt (noteOnList s) note of
                      Some vs \<Rightarrow> assign (noteOnList s) note (vs @ [r])
                    | None \<Rightarrow> assign (noteOnList s) note [r]);
          g0 = exponentialRampToValueAtTime 0.001 0 (cancelScheduledValues 0 (gain createdOsc));
          g1 = attack s (cancelAndHold s True g0) (s_geA s);
          aP = linearRampToValueAtTime 0 (currentTime s + s_geA s / 1000)
                 (cancelAndHold s True (attackProgress createdOsc));
          dP = linearRampToValueAtTime 0 (currentTime s + (s_geA s + s_geD s) / 1000)
                 (setValueAtTime 1 (currentTime s + s_geA s / 1000)
                    (cancelAndHold s True (decayProgress createdOsc)))
      in s\<lparr>noteOnList := onList,
           heap := heap s @
             [createdOsc\<lparr>gain := g1, attackProgress := aP, decayProgress := dP,
                         filterToDestination := True\<rparr>]\<rparr>)"

text \<open>
  The callback that \<open>release\<close> hands to \<open>setTimeout\<close>, with the note it was given.
  \<open>offList[note][0]\<close> of an empty array is \<open>undefined\<close>, whose \<open>.oscillators\<close> throws.
\<close>

definition releaseTimeout :: "nat \<Rightarrow> Synthesizer \<Rightarrow> outcome" where
  "releaseTimeout note s =
     (case elemAt (noteOffList s) note of
        None \<Rightarrow> Done s
      | Some [] \<Rightarrow> Throws TypeError s
      | Some (r # rest) \<Rightarrow>
          Done ((updVoice r stopAll s)
                  \<lparr>noteOffList := assign (noteOffList s) note rest,
                   timeOutList := drop 1 (timeOutList s)\<rparr>))"

definition release :: "nat \<Rightarrow> real \<Rightarrow> Synthesizer \<Rightarrow> outcome" where
  "release note releaseTime s =
     (case elemAt (noteOffList s) note of
        None \<Rightarrow> Throws TypeError s
      | Some vs \<Rightarrow>
          if vs = [] then Throws TypeError s
          else
            (let r = last vs;
                 s1 = updVoice r
                        (\<lambda>o1. o1\<lparr>gain :=
                                   exponentialRampToValueAtTime 0.0001
                                     (currentTime s + releaseTime / 1000)
                                     (cancelAndHold s True (gain o1)),
                                 releaseProgress :=
                                   linearRampToValueAtTime 0
                                     (currentTime s + releaseTime / 1000)
                                     (cancelAndHold s True (releaseProgress o1))\<rparr>) s;
                 (i, s2) = setTimeout note releaseTime s1
             in Done (s2\<lparr>timeOutList := timeOutList s2 @ [i]\<rparr>)))"

definition noteOff :: "nat \<Rightarrow> Synthesizer \<Rightarrow> outcome" where
  "noteOff note s =
     (if checkNoteOn note s then
        (let held = stack (noteOnList s) note;
             r = last held;
             onList = assign (noteOnList s) note (butlast held);
             offList = (case elemAt (noteOffList s) note of
                          Some ws \<Rightarrow> assign (noteOffList s) note (ws @ [r])
                        | None \<Rightarrow> assign (noteOffList s) note [r])
         in release note (s_geR s) (s\<lparr>noteOnList := onList, noteOffList := offList\<rparr>))
      else Done s)"

definition panicOn :: "Synthesizer \<Rightarrow> nat \<Rightarrow> Synthesizer" where
  "panicOn s i =
     (if checkNoteOn i s then
        (foldl (\<lambda>s1 r. updVoice r stopAll s1) s (stack (noteOnList s) i))
          \<lparr>noteOnList := assign (noteOnList s) i []\<rparr>
      else s)"

definition panicOff :: "Synthesizer \<Rightarrow> nat \<Rightarrow> Synthesizer" where
  "panicOff s i =
     (if checkNoteOff i s then
        (foldl (\<lambda>s1 r. updVoice r stopAll s1) s (stack (noteOffList s) i))
          \<lparr>noteOffList := assign (noteOffList s) i []\<rparr>
      else s)"

definition panic :: "Synthesizer \<Rightarrow> Synthesizer" where
  "panic s =
     (let s1 = foldl panicOn s [0..<length (noteOnList s)];
          s2 = foldl panicOff s1 [0..<length (noteOffList s1)];
          s3 = foldl (\<lambda>s' t. clearTimeout t s') s2 (timeOutList s2)
      in s3\<lparr>noteOnList := [], noteOffList := [], timeOutList := []\<rparr>)"

subsection \<open>Statistic functions\<close>

definition getOnNoteIndexes :: "Synthesizer \<Rightarrow> nat list" where
  "getOnNoteIndexes s = filter (\<lambda>i. checkNoteOn i s) [0..<length (noteOnList s)]"

definition getOffNoteIndexes :: "Synthesizer \<Rightarrow> nat list" where
  "getOffNoteIndexes s = filter (\<lambda>i. checkNoteOff i s) [0..<length (noteOffList s)]"

record noteStat =
  voicesOn :: nat
  voicesReleasing :: nat

definition getNoteStatInfo :: "nat \<Rightarrow> Synthesizer \<Rightarrow> noteStat" where
  "getNoteStatInfo note s =
     \<lparr>voicesOn = length (getOnNoteIndexes s),
      voicesReleasing = length (getOffNoteIndexes s)\<rparr>"

text \<open>The same query in the earlier revision of the file, where it is \<open>getNoteInfo\<close>.\<close>

definition getNoteInfo :: "nat \<Rightarrow> Synthesizer \<Rightarrow> noteStat" where
  "getNoteInfo note s =
     \<lparr>voicesOn = (if checkNoteOn note s then length (stack (noteOnList s) note) else 0),
      voicesReleasing = (if checkNoteOff note s then length (stack (noteOffList s) note) else 0)\<rparr>"

subsection \<open>Dynamic setters\<close>

text \<open>
  The two loops every envelope setter of held voices runs: over the notes that
  \<open>getOnNoteIndexes\<close> returned, and over the voices of each.
\<close>

definition forEachHeld :: "(nat \<Rightarrow> Synthesizer \<Rightarrow> Synthesizer) \<Rightarrow> Synthesizer \<Rightarrow> Synthesizer" where
  "forEachHeld body s =
     foldl (\<lambda>s1 note. foldl (\<lambda>s2 r. body r s2) s1 (stack (noteOnList s1) note))
       s (getOnNoteIndexes s)"

definition geA_noteGroup :: "real \<Rightarrow> nat \<Rightarrow> Synthesizer \<Rightarrow> Synthesizer" where
  "geA_noteGroup v r s =
     updVoice r
       (\<lambda>o1.
          let progress = cancelAndHold s True (attackProgress o1);
              dProgress = cancelAndHold s True (decayProgress o1);
              modValue = v * pvalue progress;
              progress1 = linearRampToValueAtTime 0 (currentTime s + modValue / 1000) progress;
              dProgress1 = linearRampToValueAtTime 0 (currentTime s + s_geD s / 1000)
                             (setValueAtTime 1 (currentTime s + modValue / 1000) dProgress);
              g = cancelAndHold s True (gain o1)
          in o1\<lparr>attackProgress := progress1, decayProgress := dProgress1,
                 gain := (if modValue > 0 then attack s g modValue
                          else decay s g modValue (s_geD s * pvalue dProgress1))\<rparr>) s"

definition set_geA :: "real \<Rightarrow> Synthesizer \<Rightarrow> Synthesizer" where
  "set_geA v s = forEachHeld (geA_noteGroup v) (s\<lparr>s_geA := v\<rparr>)"

definition geD_noteGroup :: "real \<Rightarrow> nat \<Rightarrow> Synthesizer \<Rightarrow> Synthesizer" where
  "geD_noteGroup v r s =
     updVoice r
       (\<lambda>o1.
          let aValue = s_geA s * pvalue (attackProgress o1);
              modValue = v * pvalue (decayProgress o1);
              progress = cancelAndHold s True (decayProgress o1);
              progress1 = (if pvalue (attackProgress o1) > 0
                           then setValueAtTime 1 (currentTime s + aValue / 1000) progress
                           else progress)
          in o1\<lparr>decayProgress :=
                   linearRampToValueAtTime 0 (currentTime s + modValue / 1000) progress1,
                 gain := decay s (gain o1) aValue modValue\<rparr>) s"

definition set_geD :: "real \<Rightarrow> Synthesizer \<Rightarrow> Synthesizer" where
  "set_geD v s = forEachHeld (geD_noteGroup v) (s\<lparr>s_geD := v\<rparr>)"

definition geS_noteGroup :: "nat \<Rightarrow> Synthesizer \<Rightarrow> Synthesizer" where
  "geS_noteGroup r s =
     updVoice r
       (\<lambda>o1.
          let g = cancelAndHold s True (gain o1)
          in o1\<lparr>gain :=
                   (if pvalue (attackProgress o1) = 0
                    then decay s g (s_geA s * pvalue (attackProgress o1))
                           (s_geD s * pvalue (decayProgress o1))
                    else attack s g (s_geA s * pvalue (attackProgress o1)))\<rparr>) s"

definition set_geS :: "real \<Rightarrow> Synthesizer \<Rightarrow> Synthesizer" where
  "set_geS v s = forEachHeld geS_noteGroup (s\<lparr>s_geS := v\<rparr>)"

text \<open>
  The release setter. Its inner loop reads the progress of the voice at each index of
  \<open>noteOffList[note]\<close> and calls \<open>release\<close> with the note; \<open>release\<close> leaves the note
  lists as they are, so the voices read are those of the list when the loop starts.
\<close>

fun geR_voices :: "real \<Rightarrow> nat \<Rightarrow> nat list \<Rightarrow> Synthesizer \<Rightarrow> outcome" where
  "geR_voices newRelease note [] s = Done s"
| "geR_voices newRelease note (r # rs) s =
     (case release note (newRelease * pvalue (releaseProgress (heap s ! r))) s of
        Done s1 \<Rightarrow> geR_voices newRelease note rs s1
      | Throws e s1 \<Rightarrow> Throws e s1)"

fun geR_notes :: "real \<Rightarrow> nat list \<Rightarrow> Synthesizer \<Rightarrow> outcome" where
  "geR_notes newRelease [] s = Done s"
| "geR_notes newRelease (note # notes) s =
     (case geR_voices newRelease note (stack (noteOffList s) note) s of
        Done s1 \<Rightarrow> geR_notes newRelease notes s1
      | Throws e s1 \<Rightarrow> Throws e s1)"

definition set_geR :: "real \<Rightarrow> Synthesizer \<Rightarrow> outcome" where
  "set_geR newRelease s =
     (let s1 = s\<lparr>s_geR := newRelease\<rparr>;
          s2 = foldl (\<lambda>s' t. clearTimeout t s') s1 (timeOutList s1);
          s3 = s2\<lparr>timeOutList := []\<rparr>
      in geR_notes newRelease (getOffNoteIndexes s3) s3)"

section \<open>Runs\<close>

text \<open>
  Time passes between calls. The host runs the callbacks of the timeouts that come due,
  the earliest first and, among those due at the same time, the one armed first; an
  exception a callback throws ends that callback only.
\<close>

fun earliest :: "timer list \<Rightarrow> timer option" where
  "earliest [] = None"
| "earliest (t # ts) =
     (case earliest ts of
        None \<Rightarrow> Some t
      | Some u \<Rightarrow> if due t \<le> due u then Some t else Some u)"

definition fire :: "timer \<Rightarrow> Synthesizer \<Rightarrow> Synthesizer" where
  "fire t s =
     after (releaseTimeout (tnote t)
              (s\<lparr>pending := remove1 t (pending s), clock := max (clock s) (due t)\<rparr>))"

function runTimers :: "real \<Rightarrow> Synthesizer \<Rightarrow> Synthesizer" where
  "runTimers limit s =
     (case earliest (pending s) of
        None \<Rightarrow> s
      | Some t \<Rightarrow> if due t \<le> limit then runTimers limit (fire t s) else s)"
  by pat_completeness auto
termination
proof (relation "measure (\<lambda>(limit, s). length (pending s))")
  show "wf (measure (\<lambda>(limit, s). length (pending s)))"
    by simp
next
  fix limit :: real and s :: Synthesizer and t :: timer
  assume e: "earliest (pending s) = Some t"
  have "u \<in> set ts" if "earliest ts = Some u" for ts u
    using that by (induction ts arbitrary: u) (auto split: option.splits if_splits)
  with e have "t \<in> set (pending s)"
    by blast
  then have "length (remove1 t (pending s)) < length (pending s)"
    by (simp add: length_remove1) (cases "pending s"; simp)
  moreover have "pending (fire t s) = remove1 t (pending s)"
    by (simp add: fire_def releaseTimeout_def updVoice_def split: option.splits list.splits)
  ultimately show "((limit, fire t s), (limit, s)) \<in> measure (\<lambda>(limit, s). length (pending s))"
    by simp
qed

declare runTimers.simps [simp del]

definition elapse :: "real \<Rightarrow> Synthesizer \<Rightarrow> Synthesizer" where
  "elapse ms s = (runTimers (clock s + max 0 ms) s)\<lparr>clock := clock s + max 0 ms\<rparr>"

text \<open>
  The audio thread renders: the values that the script reads from the gain and the three
  progress offsets of a voice change. Nothing here says how; a run may hold any values.
\<close>

definition render :: "nat \<Rightarrow> real \<Rightarrow> real \<Rightarrow> real \<Rightarrow> real \<Rightarrow> Synthesizer \<Rightarrow> Synthesizer" where
  "render r g a d rl s =
     updVoice r
       (\<lambda>o1. o1\<lparr>gain := (gain o1)\<lparr>pvalue := g\<rparr>,
                 attackProgress := (attackProgress o1)\<lparr>pvalue := a\<rparr>,
                 decayProgress := (decayProgress o1)\<lparr>pvalue := d\<rparr>,
                 releaseProgress := (releaseProgress o1)\<lparr>pvalue := rl\<rparr>\<rparr>) s"

datatype event =
    NoteOn nat
  | NoteOff nat
  | Panic
  | SetGeA real
  | SetGeD real
  | SetGeS real
  | SetGeR real
  | SetVoices nat
  | SetDetune real
  | Elapse real
  | Render nat real real real real

fun step :: "Synthesizer \<Rightarrow> event \<Rightarrow> Synthesizer" where
  "step s (NoteOn n) = noteOn n s"
| "step s (NoteOff n) = after (noteOff n s)"
| "step s Panic = panic s"
| "step s (SetGeA v) = set_geA v s"
| "step s (SetGeD v) = set_geD v s"
| "step s (SetGeS v) = set_geS v s"
| "step s (SetGeR v) = after (set_geR v s)"
| "step s (SetVoices k) = s\<lparr>s_voices := k\<rparr>"
| "step s (SetDetune d) = s\<lparr>s_detune := d\<rparr>"
| "step s (Elapse ms) = elapse ms s"
| "step s (Render r g a d rl) = render r g a d rl s"

definition run :: "Synthesizer \<Rightarrow> event list \<Rightarrow> Synthesizer" where
  "run s es = foldl step s es"

section \<open>Invariants and two runs\<close>

text \<open>The voices on the heap all of whose oscillators have been stopped.\<close>

definition quiet :: "Synthesizer \<Rightarrow> nat set" where
  "quiet s = {q. q < length (heap s) \<and> silent (heap s ! q)}"

text \<open>
  The membership invariant of the two note lists: no voice is listed twice (in one
  stack, in two stacks of one list, or in both lists), every listed voice exists, and a
  voice that is listed nowhere has had all its oscillators stopped.
\<close>

definition listed :: "Synthesizer \<Rightarrow> nat list" where
  "listed s = members (noteOnList s) @ members (noteOffList s)"

definition kept :: "Synthesizer \<Rightarrow> bool" where
  "kept s \<longleftrightarrow>
     distinct (listed s) \<and>
     (\<forall>r \<in> set (listed s). r < length (heap s)) \<and>
     (\<forall>r < length (heap s). r \<in> set (listed s) \<or> r \<in> quiet s)"

text \<open>
  What holds of the timers while the release time stays the same: \<open>timeOutList\<close> lists
  the pending timeouts in the order they were armed, which is the order they come due
  in, none is due later than a release armed now would be, and each note has as many
  pending timeouts as releasing voices.
\<close>

definition inStep :: "Synthesizer \<Rightarrow> bool" where
  "inStep s \<longleftrightarrow>
     timeOutList s = map tid (pending s) \<and>
     sorted (map due (pending s)) \<and>
     (\<forall>t \<in> set (pending s). due t \<le> clock s + max 0 (s_geR s)) \<and>
     (\<forall>n. length (filter (\<lambda>t. tnote t = n) (pending s)) = length (stack (noteOffList s) n))"

text \<open>
  Two states with the same note lists, the same timers and the same stopped voices: what
  a call that only reschedules envelopes leaves alone.
\<close>

definition same :: "Synthesizer \<Rightarrow> Synthesizer \<Rightarrow> bool" where
  "same s s' \<longleftrightarrow>
     noteOnList s' = noteOnList s \<and> noteOffList s' = noteOffList s \<and>
     timeOutList s' = timeOutList s \<and> pending s' = pending s \<and> clock s' = clock s \<and>
     nextTimeout s' = nextTimeout s \<and> s_geR s' = s_geR s \<and>
     length (heap s') = length (heap s) \<and> quiet s' = quiet s"

text \<open>
  References are handed out in creation order (\<open>noteOn\<close> puts the new voice at the end
  of the heap), so a held stack that ascends lists its voices oldest first.
\<close>

definition ascending :: "Synthesizer \<Rightarrow> bool" where
  "ascending s \<longleftrightarrow> (\<forall>n. sorted_wrt (<) (stack (noteOnList s) n))"

text \<open>The calls of a run that leave the release time as it is.\<close>

fun keepsRelease :: "event \<Rightarrow> bool" where
  "keepsRelease (SetGeR v) = False"
| "keepsRelease e = True"

text \<open>
  Two runs that the release setter is tried on. In the first, two voices of note 60 are
  released 500 ms apart with a release time of one second; 100 ms later the older one
  (voice 1) has 0.4 of its release left and the younger one (voice 0) has 0.9.
\<close>

definition twoReleasing :: Synthesizer where
  "twoReleasing =
     run (newSynthesizer ''sine'' ''lowpass'')
       [SetGeR 1000, NoteOn 60, NoteOn 60, NoteOff 60, Elapse 500, NoteOff 60, Elapse 100,
        Render 1 0.00025 0 0 0.4, Render 0 0.11 0 0 0.9]"

text \<open>
  In the second, note 61 (voice 1) is released first and note 60 (voice 0) 500 ms later.
  At 600 ms the release time is set to two seconds; the voice of note 60 then has 0.9 of
  its release left and that of note 61 has 0.4. At 1500 ms the voice of note 61 is gone
  and the voice of note 60 has 0.45 of its release left.
\<close>

definition twoNotesReleasing :: Synthesizer where
  "twoNotesReleasing =
     run (newSynthesizer ''sine'' ''lowpass'')
       [SetGeR 1000, NoteOn 60, NoteOn 61, NoteOff 61, Elapse 500, NoteOff 60, Elapse 100,
        Render 0 0.11 0 0 0.9, Render 1 0.00025 0 0 0.4,
        SetGeR 2000, Elapse 900, Render 0 0.003 0 0 0.45]"

section \<open>The unison spread\<close>

text \<open>
  Run from its start, the loop of \<open>setType\<close> has made \<open>i\<close> oscillators when \<open>evens\<close>
  is \<open>(i + 1) div 2\<close> (and 1 before the first pair); from there it appends one
  oscillator for each remaining index, detuned by its place in the pattern.
\<close>

lemma setTypeLoop_closed:
  "e = int (max 1 ((i + 1) div 2)) \<Longrightarrow>
   setTypeLoop vs d i e oscs =
     oscs @ map (\<lambda>k. createOscillator\<lparr>odetune :=
                        (if k = 0 then 0
                         else if k mod 2 = 1 then real ((k + 1) div 2) * d
                         else - (real (k div 2) * d))\<rparr>) [i..<vs]"
proof (induction vs d i e oscs rule: setTypeLoop.induct)
  case (1 vs d i evens oscs)
  show ?case
  proof (cases "i < vs")
    case False
    then show ?thesis
      by (subst setTypeLoop.simps) simp
  next
    case lt: True
    then have upt: "[i..<vs] = i # [i + 1..<vs]"
      by (simp add: upt_conv_Cons)
    consider (zero) "i = 0" | (odd) "i > 0" "i mod 2 = 1" | (even) "i > 0" "i mod 2 \<noteq> 1"
      by blast
    then show ?thesis
    proof cases
      case zero
      have e: "evens = int (max 1 ((i + 1 + 1) div 2))"
        using zero "1.prems" by simp
      show ?thesis
        using zero lt "1.IH"(3) [OF lt _ e] upt
        by (subst setTypeLoop.simps) (simp add: createOscillator_def)
    next
      case odd
      have e: "evens = int (max 1 ((i + 1 + 1) div 2))"
        using odd "1.prems" by (simp add: max_def; presburger)
      have v: "real_of_int evens = real ((i + 1) div 2)"
        using odd "1.prems" by (simp add: max_def; presburger)
      show ?thesis
        using odd lt "1.IH"(1) [OF lt odd(1) odd(2) e] upt v
        by (subst setTypeLoop.simps) (simp add: mult.commute)
    next
      case even
      have e: "evens + 1 = int (max 1 ((i + 1 + 1) div 2))"
        using even "1.prems" by (simp add: max_def; presburger)
      have v: "real_of_int evens = real (i div 2)"
        using even "1.prems" by (simp add: max_def; presburger)
      show ?thesis
        using even lt "1.IH"(2) [OF lt even(1) even(2) e] upt v
        by (subst setTypeLoop.simps) (simp add: mult.commute)
    qed
  qed
qed

lemma oscillators_createSOsc:
  "oscillators (createSOsc v d oType oVol freq fTy fFreq fQValue) =
     map (\<lambda>k. \<lparr>otype = oType, frequency = freq,
               odetune = (if k = 0 then 0
                          else if k mod 2 = 1 then real ((k + 1) div 2) * d
                          else - (real (k div 2) * d)),
               connected = True, started = True, stopped = False\<rparr>) [0..<v]"
  by (simp add: createSOsc_def newSoundOscillator_def setType_def setTypeLoop_closed
      Let_def createOscillator_def o_def)

text \<open>
  C7. For every voice count \<open>v\<close> and detune \<open>d\<close>, the voice that \<open>createSOsc\<close> builds
  has exactly \<open>v\<close> oscillators; oscillator 0 is not detuned, oscillator \<open>2k - 1\<close>
  carries \<open>+k * d\<close> and oscillator \<open>2k\<close> carries \<open>-k * d\<close>, in creation order.
\<close>

theorem unison_detune_pattern:
  "length (oscillators (createSOsc v d oType oVol freq fTy fFreq fQValue)) = v \<and>
   (\<forall>i<v. odetune (oscillators (createSOsc v d oType oVol freq fTy fFreq fQValue) ! i) =
      (if i = 0 then 0
       else if i mod 2 = 1 then real ((i + 1) div 2) * d
       else - (real (i div 2) * d)))"
  by (simp add: oscillators_createSOsc)


theorem unison_detune_pattern_witness:
  "length (oscillators (createSOsc 5 7 ''sine'' 1 440 ''lowpass'' 24000 1)) = 5 \<and>
   odetune (oscillators (createSOsc 5 7 ''sine'' 1 440 ''lowpass'' 24000 1) ! 0) = 0 \<and>
   odetune (oscillators (createSOsc 5 7 ''sine'' 1 440 ''lowpass'' 24000 1) ! 3) = 14 \<and>
   odetune (oscillators (createSOsc 5 7 ''sine'' 1 440 ''lowpass'' 24000 1) ! 4) = - 14"
proof -
  let ?os = "oscillators (createSOsc 5 7 ''sine'' 1 440 ''lowpass'' 24000 1)"
  note p = unison_detune_pattern [of 5 7 "''sine''" 1 440 "''lowpass''" 24000 1]
  from p have len: "length ?os = 5"
    by (rule conjunct1)
  from p have nth: "\<And>i. i < 5 \<Longrightarrow> odetune (?os ! i) =
      (if i = 0 then 0 else if i mod 2 = 1 then real ((i + 1) div 2) * 7
       else - (real (i div 2) * 7))"
    by blast
  have "odetune (?os ! 0) = 0" "odetune (?os ! 3) = 14" "odetune (?os ! 4) = - 14"
    using nth [of 0] nth [of 3] nth [of 4] by simp_all
  with len show ?thesis
    by blast
qed

section \<open>Arrays and stacks\<close>

lemma elemAt_assign: "elemAt (assign xs i v) j = (if j = i then Some v else elemAt xs j)"
proof (induction xs i v arbitrary: j rule: assign.induct)
  case (1 v)
  then show ?case by (cases j) simp_all
next
  case (2 i v)
  then show ?case by (cases j) simp_all
next
  case (3 x xs v)
  then show ?case by (cases j) simp_all
next
  case (4 x xs i v)
  then show ?case by (cases j) simp_all
qed

lemma stack_assign: "stack (assign xs i v) j = (if j = i then v else stack xs j)"
  by (simp add: stack_def elemAt_assign)

lemma length_assign: "length (assign xs i v) = max (length xs) (Suc i)"
  by (induction xs i v rule: assign.induct) simp_all

lemma elemAt_beyond: "length xs \<le> i \<Longrightarrow> elemAt xs i = None"
  by (induction xs i rule: elemAt.induct) simp_all

lemma stack_Nil [simp]: "stack [] n = []"
  by (simp add: stack_def)

lemma members_assign:
  "mset (members (assign xs i v)) + mset (stack xs i) = mset (members xs) + mset v"
proof (induction xs i v rule: assign.induct)
  case (3 x xs v)
  then show ?case by (cases x) (simp_all add: stack_def)
next
  case (4 x xs i v)
  then show ?case by (cases x) (simp_all add: stack_def)
qed (simp_all add: stack_def)

lemma stack_subset_members: "set (stack xs n) \<subseteq> set (members xs)"
proof (induction xs n rule: elemAt.induct)
  case (2 x xs)
  then show ?case by (cases x) (simp_all add: stack_def)
next
  case (3 x xs i)
  then show ?case by (cases x) (auto simp: stack_def)
qed (simp add: stack_def)

lemma members_stack: "r \<in> set (members xs) \<Longrightarrow> \<exists>n. r \<in> set (stack xs n)"
proof (induction xs)
  case Nil
  then show ?case by simp
next
  case (Cons x xs)
  show ?case
  proof (cases "r \<in> set (members xs)")
    case True
    with Cons.IH obtain n where "r \<in> set (stack xs n)" by blast
    then have "r \<in> set (stack (x # xs) (Suc n))" by (simp add: stack_def)
    then show ?thesis ..
  next
    case False
    with Cons.prems have "r \<in> set (stack (x # xs) 0)"
      by (cases x) (simp_all add: stack_def)
    then show ?thesis ..
  qed
qed

lemma checkNoteOn_stack: "checkNoteOn n s \<longleftrightarrow> stack (noteOnList s) n \<noteq> []"
  by (simp add: checkNoteOn_def stack_def split: option.splits)

lemma checkNoteOff_stack: "checkNoteOff n s \<longleftrightarrow> stack (noteOffList s) n \<noteq> []"
  by (simp add: checkNoteOff_def stack_def split: option.splits)

section \<open>What the calls leave alone\<close>

lemma updVoice_fields [simp]:
  "noteOnList (updVoice r f s) = noteOnList s"
  "noteOffList (updVoice r f s) = noteOffList s"
  "timeOutList (updVoice r f s) = timeOutList s"
  "pending (updVoice r f s) = pending s"
  "clock (updVoice r f s) = clock s"
  "nextTimeout (updVoice r f s) = nextTimeout s"
  "s_geR (updVoice r f s) = s_geR s"
  "length (heap (updVoice r f s)) = length (heap s)"
  by (simp_all add: updVoice_def)

lemma release_lists:
  "noteOnList (after (release n t s)) = noteOnList s"
  "noteOffList (after (release n t s)) = noteOffList s"
  by (simp_all add: release_def setTimeout_def Let_def split: option.splits)

lemma release_Done:
  "stack (noteOffList s) n \<noteq> [] \<Longrightarrow> \<exists>s'. release n t s = Done s'"
  by (simp add: release_def stack_def setTimeout_def Let_def split: option.splits)

section \<open>noteOn and noteOff on the note lists\<close>

lemma noteOn_lists:
  "noteOnList (noteOn n s) = assign (noteOnList s) n (stack (noteOnList s) n @ [length (heap s)])"
  "noteOffList (noteOn n s) = noteOffList s"
  "timeOutList (noteOn n s) = timeOutList s"
  "pending (noteOn n s) = pending s"
  "clock (noteOn n s) = clock s"
  "s_geR (noteOn n s) = s_geR s"
  by (simp_all add: noteOn_def Let_def stack_def split: option.splits)

lemma noteOn_heap:
  "length (heap (noteOn n s)) = Suc (length (heap s))"
  "r < length (heap s) \<Longrightarrow> heap (noteOn n s) ! r = heap s ! r"
  by (simp_all add: noteOn_def Let_def nth_append)

lemma noteOff_idle: "stack (noteOnList s) n = [] \<Longrightarrow> noteOff n s = Done s"
  by (simp add: noteOff_def checkNoteOn_stack)

lemma noteOff_lists:
  assumes "stack (noteOnList s) n = hs @ [r]"
  shows "\<exists>s'. noteOff n s = Done s' \<and>
           noteOnList s' = assign (noteOnList s) n hs \<and>
           noteOffList s' = assign (noteOffList s) n (stack (noteOffList s) n @ [r])"
proof -
  let ?off = "assign (noteOffList s) n (stack (noteOffList s) n @ [r])"
  let ?s1 = "s\<lparr>noteOnList := assign (noteOnList s) n hs, noteOffList := ?off\<rparr>"
  have eq: "noteOff n s = release n (s_geR s) ?s1"
    using assms by (simp add: noteOff_def checkNoteOn_stack Let_def stack_def split: option.splits)
  have "stack (noteOffList ?s1) n \<noteq> []"
    by (simp add: stack_assign)
  then obtain s' where d: "release n (s_geR s) ?s1 = Done s'"
    using release_Done by blast
  have "noteOnList s' = noteOnList ?s1" "noteOffList s' = noteOffList ?s1"
    using release_lists [of n "s_geR s" ?s1] d by simp_all
  with eq d show ?thesis by simp
qed

text \<open>
  C4. \<open>noteOff\<close> on a note whose held stack is empty, or was never initialised, returns
  without an error and leaves the whole state as it was: the note lists of every note,
  the list of timeouts, the pending timers of the host and every voice's automation.
\<close>

theorem noteOff_without_held_voice:
  "stack (noteOnList s) n = [] \<Longrightarrow> noteOff n s = Done s"
  by (rule noteOff_idle)

theorem noteOff_without_held_voice_witness:
  "stack (noteOnList (newSynthesizer ''sine'' ''lowpass'')) 60 = [] \<and>
   noteOff 60 (newSynthesizer ''sine'' ''lowpass'') = Done (newSynthesizer ''sine'' ''lowpass'')"
proof -
  have h: "stack (noteOnList (newSynthesizer ''sine'' ''lowpass'')) 60 = []"
    by (simp add: newSynthesizer_def)
  from h noteOff_without_held_voice [OF h] show ?thesis
    by blast
qed

text \<open>
  C10. \<open>noteOn n\<close> and \<open>noteOff n\<close> leave the held and the releasing entry of every other
  note \<open>m\<close> as they were: the same voices in the same order, and a note that had no
  array still has none.
\<close>

theorem other_notes_untouched:
  "m \<noteq> n \<Longrightarrow>
     elemAt (noteOnList (noteOn n s)) m = elemAt (noteOnList s) m \<and>
     elemAt (noteOffList (noteOn n s)) m = elemAt (noteOffList s) m \<and>
     elemAt (noteOnList (after (noteOff n s))) m = elemAt (noteOnList s) m \<and>
     elemAt (noteOffList (after (noteOff n s))) m = elemAt (noteOffList s) m"
proof -
  assume neq: "m \<noteq> n"
  have on: "elemAt (noteOnList (noteOn n s)) m = elemAt (noteOnList s) m"
    "elemAt (noteOffList (noteOn n s)) m = elemAt (noteOffList s) m"
    using neq by (simp_all add: noteOn_lists elemAt_assign)
  have off: "elemAt (noteOnList (after (noteOff n s))) m = elemAt (noteOnList s) m \<and>
     elemAt (noteOffList (after (noteOff n s))) m = elemAt (noteOffList s) m"
  proof (cases "stack (noteOnList s) n = []")
    case True
    then show ?thesis by (simp add: noteOff_idle)
  next
    case False
    then obtain hs r where "stack (noteOnList s) n = hs @ [r]"
      by (metis rev_exhaust)
    from noteOff_lists [OF this] neq show ?thesis
      by (auto simp: elemAt_assign)
  qed
  from on off show ?thesis by blast
qed


theorem other_notes_untouched_witness:
  "(61::nat) \<noteq> 60 \<and>
   elemAt (noteOnList (noteOn 61 (newSynthesizer ''sine'' ''lowpass''))) 61 = Some [0] \<and>
   elemAt (noteOnList (noteOn 60 (noteOn 61 (newSynthesizer ''sine'' ''lowpass'')))) 61 = Some [0] \<and>
   elemAt (noteOnList (after (noteOff 60 (noteOn 61 (newSynthesizer ''sine'' ''lowpass''))))) 61
     = Some [0]"
proof -
  let ?s = "noteOn 61 (newSynthesizer ''sine'' ''lowpass'')"
  have neq: "(61::nat) \<noteq> 60"
    by simp
  have here: "elemAt (noteOnList ?s) 61 = Some [0]"
    by (simp add: noteOn_lists elemAt_assign newSynthesizer_def)
  from other_notes_untouched [OF neq, of ?s] neq here show ?thesis
    by simp
qed

section \<open>Frequencies\<close>

lemma noteOn_created:
  "heap (noteOn n s) ! length (heap s) =
     (createSOsc (s_voices s) (s_detune s) (s_oscType s) (s_maxVolume s) (noteFreq n)
        (s_filterType s) (s_filterFrequency s) (s_filterBandwidth s))
     \<lparr>gain := gain (heap (noteOn n s) ! length (heap s)),
      attackProgress := attackProgress (heap (noteOn n s) ! length (heap s)),
      decayProgress := decayProgress (heap (noteOn n s) ! length (heap s)),
      filterToDestination := True\<rparr>"
  by (simp add: noteOn_def Let_def)

text \<open>
  C6. The voice that \<open>noteOn\<close> creates for a note is the one it puts on top of the
  note's held stack, and each of its oscillators runs at \<open>440 * 2 ^ ((note - 69) / 12)\<close>
  Hz; that is 440 Hz for note 69 and, within \<open>10\<^sup>-\<^sup>6\<close>, 880 Hz for note 81.
\<close>

theorem noteOn_frequency:
  "last (stack (noteOnList (noteOn n s)) n) = length (heap s) \<and>
   (\<forall>osc \<in> set (oscillators (heap (noteOn n s) ! length (heap s))).
      frequency osc = 440 * 2 powr ((real n - 69) / 12)) \<and>
   noteFreq 69 = 440 \<and> \<bar>noteFreq 81 - 880\<bar> \<le> 1 / 10 ^ 6"
proof -
  have top: "last (stack (noteOnList (noteOn n s)) n) = length (heap s)"
    by (simp add: noteOn_lists stack_assign)
  have "oscillators (heap (noteOn n s) ! length (heap s)) =
          oscillators (createSOsc (s_voices s) (s_detune s) (s_oscType s) (s_maxVolume s)
            (noteFreq n) (s_filterType s) (s_filterFrequency s) (s_filterBandwidth s))"
    by (subst noteOn_created) simp
  then have freq: "\<forall>osc \<in> set (oscillators (heap (noteOn n s) ! length (heap s))).
      frequency osc = 440 * 2 powr ((real n - 69) / 12)"
    by (auto simp: oscillators_createSOsc noteFreq_def)
  have a: "noteFreq 69 = 440"
    by (simp add: noteFreq_def)
  have "noteFreq 81 = 880"
    by (simp add: noteFreq_def)
  then have b: "\<bar>noteFreq 81 - 880\<bar> \<le> 1 / 10 ^ 6"
    by simp
  from top freq a b show ?thesis
    by blast
qed

theorem noteOn_frequency_witness:
  "map frequency (oscillators (heap (noteOn 81 (newSynthesizer ''sine'' ''lowpass'')) ! 0)) = [880]"
proof -
  let ?s = "newSynthesizer ''sine'' ''lowpass''"
  let ?osc = "\<lparr>otype = ''sine'', frequency = noteFreq 81, odetune = 0,
                connected = True, started = True, stopped = False\<rparr>"
  have len: "length (heap ?s) = 0"
    by (simp add: newSynthesizer_def)
  have os: "oscillators (heap (noteOn 81 ?s) ! length (heap ?s)) = [?osc]"
    by (subst noteOn_created) (simp add: oscillators_createSOsc newSynthesizer_def)
  have "\<forall>osc \<in> set (oscillators (heap (noteOn 81 ?s) ! length (heap ?s))).
          frequency osc = 440 * 2 powr ((real 81 - 69) / 12)"
    using noteOn_frequency [of 81 ?s] by blast
  then have "frequency ?osc = 880"
    unfolding os by simp
  then have "map frequency (oscillators (heap (noteOn 81 ?s) ! length (heap ?s))) = [880]"
    unfolding os by simp
  then show ?thesis
    by (simp add: len)
qed

section \<open>The note statistics\<close>

lemma getNoteInfo_counts:
  "getNoteInfo n s =
     \<lparr>voicesOn = length (stack (noteOnList s) n),
      voicesReleasing = length (stack (noteOffList s) n)\<rparr>"
  by (simp add: getNoteInfo_def checkNoteOn_stack checkNoteOff_stack)

lemma getNoteStatInfo_any_note: "getNoteStatInfo n s = getNoteStatInfo m s"
  by (simp add: getNoteStatInfo_def)

text \<open>
  C9. With two voices held on note 60 and none elsewhere, \<open>getNoteStatInfo 60\<close> answers
  1 (the number of notes that have a held voice), and it gives the same answer for
  note 61, which holds none; \<open>getNoteInfo\<close> of the earlier revision answers 2 and 0.
\<close>

theorem getNoteStatInfo_two_voices_on_60:
  "length (stack (noteOnList (run (newSynthesizer ''sine'' ''lowpass'') [NoteOn 60, NoteOn 60])) 60) = 2 \<and>
   voicesOn (getNoteStatInfo 60 (run (newSynthesizer ''sine'' ''lowpass'') [NoteOn 60, NoteOn 60])) = 1 \<and>
   voicesOn (getNoteStatInfo 61 (run (newSynthesizer ''sine'' ''lowpass'') [NoteOn 60, NoteOn 60])) = 1 \<and>
   voicesOn (getNoteInfo 60 (run (newSynthesizer ''sine'' ''lowpass'') [NoteOn 60, NoteOn 60])) = 2 \<and>
   voicesOn (getNoteInfo 61 (run (newSynthesizer ''sine'' ''lowpass'') [NoteOn 60, NoteOn 60])) = 0"
  by code_simp

section \<open>Voices on the heap\<close>

lemma silent_stopAll [simp]: "silent (stopAll o1)"
  by (simp add: silent_def stopAll_def list_all_iff)

lemma quiet_updVoice_stop:
  "quiet (updVoice r stopAll s) = quiet s \<union> (if r < length (heap s) then {r} else {})"
  by (auto simp: quiet_def updVoice_def nth_list_update)

lemma quiet_updVoice_keep:
  assumes "\<And>o1. oscillators (f o1) = oscillators o1"
  shows "quiet (updVoice r f s) = quiet s"
  using assms by (auto simp: quiet_def updVoice_def nth_list_update silent_def)

lemma quiet_cong:
  "heap s' = heap s \<Longrightarrow> quiet s' = quiet s"
  by (simp add: quiet_def)

lemma stopVoices_fields [simp]:
  "noteOnList (foldl (\<lambda>s1 r. updVoice r stopAll s1) s rs) = noteOnList s"
  "noteOffList (foldl (\<lambda>s1 r. updVoice r stopAll s1) s rs) = noteOffList s"
  "timeOutList (foldl (\<lambda>s1 r. updVoice r stopAll s1) s rs) = timeOutList s"
  "pending (foldl (\<lambda>s1 r. updVoice r stopAll s1) s rs) = pending s"
  "clock (foldl (\<lambda>s1 r. updVoice r stopAll s1) s rs) = clock s"
  "nextTimeout (foldl (\<lambda>s1 r. updVoice r stopAll s1) s rs) = nextTimeout s"
  "s_geR (foldl (\<lambda>s1 r. updVoice r stopAll s1) s rs) = s_geR s"
  "length (heap (foldl (\<lambda>s1 r. updVoice r stopAll s1) s rs)) = length (heap s)"
  by (induction rs arbitrary: s; simp)+

lemma quiet_stopVoices:
  "quiet (foldl (\<lambda>s1 r. updVoice r stopAll s1) s rs) =
     quiet s \<union> {r \<in> set rs. r < length (heap s)}"
  by (induction rs arbitrary: s) (auto simp: quiet_updVoice_stop)

section \<open>The effect of each call\<close>

lemma noteOn_more:
  "nextTimeout (noteOn n s) = nextTimeout s"
  "q < length (heap s) \<Longrightarrow> q \<in> quiet (noteOn n s) \<longleftrightarrow> q \<in> quiet s"
  by (simp_all add: noteOn_def Let_def quiet_def nth_append)

lemma release_effect:
  assumes "stack (noteOffList s) n \<noteq> []"
  shows "\<exists>s'. release n t s = Done s' \<and>
           noteOnList s' = noteOnList s \<and> noteOffList s' = noteOffList s \<and>
           timeOutList s' = timeOutList s @ [nextTimeout s] \<and>
           pending s' = pending s @
             [\<lparr>tid = nextTimeout s, due = clock s + max 0 t, delay = t, tnote = n\<rparr>] \<and>
           nextTimeout s' = Suc (nextTimeout s) \<and> clock s' = clock s \<and>
           s_geR s' = s_geR s \<and> length (heap s') = length (heap s) \<and> quiet s' = quiet s"
proof -
  obtain vs where vs: "elemAt (noteOffList s) n = Some vs" "vs \<noteq> []"
    using assms by (auto simp: stack_def split: option.splits)
  let ?f = "\<lambda>o1. o1\<lparr>gain := exponentialRampToValueAtTime 0.0001 (currentTime s + t / 1000)
                              (cancelAndHold s True (gain o1)),
                    releaseProgress := linearRampToValueAtTime 0 (currentTime s + t / 1000)
                              (cancelAndHold s True (releaseProgress o1))\<rparr>"
  have q: "quiet (updVoice (last vs) ?f s) = quiet s"
    by (rule quiet_updVoice_keep) simp
  have h: "\<And>s1 i. quiet (s1\<lparr>pending := i, nextTimeout := Suc (nextTimeout s), timeOutList := timeOutList s @ [nextTimeout s]\<rparr>) = quiet s1"
    by (simp add: quiet_def)
  show ?thesis
    using vs q by (simp add: release_def setTimeout_def Let_def h)
qed

lemma noteOff_effect:
  assumes "stack (noteOnList s) n = hs @ [r]"
  shows "\<exists>s'. noteOff n s = Done s' \<and>
           noteOnList s' = assign (noteOnList s) n hs \<and>
           noteOffList s' = assign (noteOffList s) n (stack (noteOffList s) n @ [r]) \<and>
           timeOutList s' = timeOutList s @ [nextTimeout s] \<and>
           pending s' = pending s @
             [\<lparr>tid = nextTimeout s, due = clock s + max 0 (s_geR s), delay = s_geR s,
               tnote = n\<rparr>] \<and>
           nextTimeout s' = Suc (nextTimeout s) \<and> clock s' = clock s \<and>
           s_geR s' = s_geR s \<and> length (heap s') = length (heap s) \<and> quiet s' = quiet s"
proof -
  let ?off = "assign (noteOffList s) n (stack (noteOffList s) n @ [r])"
  let ?s1 = "s\<lparr>noteOnList := assign (noteOnList s) n hs, noteOffList := ?off\<rparr>"
  have eq: "noteOff n s = release n (s_geR s) ?s1"
    using assms by (simp add: noteOff_def checkNoteOn_stack Let_def stack_def split: option.splits)
  have ne: "stack (noteOffList ?s1) n \<noteq> []"
    by (simp add: stack_assign)
  have q: "quiet ?s1 = quiet s"
    by (simp add: quiet_def)
  from release_effect [OF ne, of "s_geR s"] eq q show ?thesis
    by auto
qed

lemma fire_effect:
  "noteOnList (fire t s) = noteOnList s \<and>
   pending (fire t s) = remove1 t (pending s) \<and>
   clock (fire t s) = max (clock s) (due t) \<and>
   nextTimeout (fire t s) = nextTimeout s \<and> s_geR (fire t s) = s_geR s \<and>
   length (heap (fire t s)) = length (heap s) \<and>
   (case stack (noteOffList s) (tnote t) of
      [] \<Rightarrow> noteOffList (fire t s) = noteOffList s \<and> quiet (fire t s) = quiet s
    | r # rest \<Rightarrow>
        noteOffList (fire t s) = assign (noteOffList s) (tnote t) rest \<and>
        timeOutList (fire t s) = drop 1 (timeOutList s) \<and>
        quiet (fire t s) = quiet s \<union> (if r < length (heap s) then {r} else {}))"
proof -
  let ?s1 = "s\<lparr>pending := remove1 t (pending s), clock := max (clock s) (due t)\<rparr>"
  have q1: "quiet ?s1 = quiet s"
    by (simp add: quiet_def)
  have q2: "\<And>s1 a b. quiet (s1\<lparr>noteOffList := a, timeOutList := b\<rparr>) = quiet s1"
    by (simp add: quiet_def)
  have q3: "\<And>r. quiet (updVoice r stopAll ?s1) = quiet s \<union> (if r < length (heap s) then {r} else {})"
    by (simp add: quiet_updVoice_stop q1)
  show ?thesis
    by (simp add: fire_def releaseTimeout_def stack_def q1 q2 q3 split: option.splits list.splits)
qed

lemma runTimers_keeps:
  assumes "P s"
    and "\<And>s t. P s \<Longrightarrow> earliest (pending s) = Some t \<Longrightarrow> due t \<le> limit \<Longrightarrow> P (fire t s)"
  shows "P (runTimers limit s)"
  using assms
proof (induction limit s rule: runTimers.induct)
  case (1 limit s)
  show ?case
  proof (cases "earliest (pending s)")
    case None
    with "1.prems"(1) show ?thesis
      by (subst runTimers.simps) simp
  next
    case (Some t)
    show ?thesis
    proof (cases "due t \<le> limit")
      case True
      have "P (fire t s)"
        using "1.prems"(1) Some True by (rule "1.prems"(2))
      then have "P (runTimers limit (fire t s))"
        using "1.prems"(2) by (rule "1.IH" [OF Some True])
      with Some True show ?thesis
        by (subst runTimers.simps) simp
    next
      case False
      with Some "1.prems"(1) show ?thesis
        by (subst runTimers.simps) simp
    qed
  qed
qed

lemma updVoice_keep:
  assumes "\<And>o1. oscillators (f o1) = oscillators o1"
  shows "noteOnList (updVoice r f s) = noteOnList s \<and>
         noteOffList (updVoice r f s) = noteOffList s \<and>
         timeOutList (updVoice r f s) = timeOutList s \<and>
         pending (updVoice r f s) = pending s \<and>
         clock (updVoice r f s) = clock s \<and>
         nextTimeout (updVoice r f s) = nextTimeout s \<and>
         s_geR (updVoice r f s) = s_geR s \<and>
         length (heap (updVoice r f s)) = length (heap s) \<and>
         quiet (updVoice r f s) = quiet s"
  using quiet_updVoice_keep [of f r s, OF assms] by simp

text \<open>A property that each step of the setters' two loops keeps is kept by the loops.\<close>

lemma forEachHeld_keeps:
  assumes "P s" and "\<And>r s1. P s1 \<Longrightarrow> P (body r s1)"
  shows "P (forEachHeld body s)"
proof -
  have inner: "P (foldl (\<lambda>s2 r. body r s2) s1 rs)" if "P s1" for s1 rs
    using that by (induction rs arbitrary: s1) (simp_all add: assms(2))
  have "P (foldl (\<lambda>s1 note. foldl (\<lambda>s2 r. body r s2) s1 (stack (noteOnList s1) note)) s ns)"
    for ns
    using assms(1) by (induction ns arbitrary: s) (simp_all add: inner)
  then show ?thesis
    by (simp add: forEachHeld_def)
qed

lemma same_updVoice:
  assumes "\<And>o1. oscillators (f o1) = oscillators o1" and "same s s1"
  shows "same s (updVoice r f s1)"
  using updVoice_keep [of f r s1, OF assms(1)] assms(2) by (simp add: same_def)

lemma same_set_geA: "same s (set_geA v s)"
  unfolding set_geA_def
proof (rule forEachHeld_keeps)
  show "same s (s\<lparr>s_geA := v\<rparr>)"
    by (simp add: same_def quiet_def)
next
  fix r s1
  assume "same s s1"
  then show "same s (geA_noteGroup v r s1)"
    unfolding geA_noteGroup_def by (rule same_updVoice [rotated]) (simp add: Let_def)
qed

lemma same_set_geD: "same s (set_geD v s)"
  unfolding set_geD_def
proof (rule forEachHeld_keeps)
  show "same s (s\<lparr>s_geD := v\<rparr>)"
    by (simp add: same_def quiet_def)
next
  fix r s1
  assume "same s s1"
  then show "same s (geD_noteGroup v r s1)"
    unfolding geD_noteGroup_def by (rule same_updVoice [rotated]) (simp add: Let_def)
qed

lemma same_set_geS: "same s (set_geS v s)"
  unfolding set_geS_def
proof (rule forEachHeld_keeps)
  show "same s (s\<lparr>s_geS := v\<rparr>)"
    by (simp add: same_def quiet_def)
next
  fix r s1
  assume "same s s1"
  then show "same s (geS_noteGroup r s1)"
    unfolding geS_noteGroup_def by (rule same_updVoice [rotated]) (simp add: Let_def)
qed

lemma same_render: "same s (render r g a d rl s)"
  unfolding render_def by (rule same_updVoice) (simp_all add: same_def)

lemma same_params: "same s (s\<lparr>s_voices := k\<rparr>)" "same s (s\<lparr>s_detune := d\<rparr>)"
  by (simp_all add: same_def quiet_def)

lemma clearTimeouts_effect:
  "noteOnList (foldl (\<lambda>s' t. clearTimeout t s') s ts) = noteOnList s \<and>
   noteOffList (foldl (\<lambda>s' t. clearTimeout t s') s ts) = noteOffList s \<and>
   timeOutList (foldl (\<lambda>s' t. clearTimeout t s') s ts) = timeOutList s \<and>
   pending (foldl (\<lambda>s' t. clearTimeout t s') s ts) =
     filter (\<lambda>t. tid t \<notin> set ts) (pending s) \<and>
   clock (foldl (\<lambda>s' t. clearTimeout t s') s ts) = clock s \<and>
   nextTimeout (foldl (\<lambda>s' t. clearTimeout t s') s ts) = nextTimeout s \<and>
   s_geR (foldl (\<lambda>s' t. clearTimeout t s') s ts) = s_geR s \<and>
   heap (foldl (\<lambda>s' t. clearTimeout t s') s ts) = heap s"
proof (induction ts arbitrary: s)
  case Nil
  show ?case by simp
next
  case (Cons a ts)
  have "filter (\<lambda>t. tid t \<notin> set ts) (filter (\<lambda>t. tid t \<noteq> a) (pending s)) =
        filter (\<lambda>t. tid t \<notin> set (a # ts)) (pending s)"
    by (induction "pending s") auto
  with Cons [of "clearTimeout a s"] show ?case
    by (simp add: clearTimeout_def)
qed

lemma geR_voices_effect:
  assumes "stack (noteOffList s) n \<noteq> []"
  shows "\<exists>s'. geR_voices v n rs s = Done s' \<and>
           noteOnList s' = noteOnList s \<and> noteOffList s' = noteOffList s \<and>
           clock s' = clock s \<and> s_geR s' = s_geR s \<and>
           length (heap s') = length (heap s) \<and> quiet s' = quiet s"
  using assms
proof (induction rs arbitrary: s)
  case Nil
  show ?case by simp
next
  case (Cons r rs)
  from release_effect [OF Cons.prems, of "v * pvalue (releaseProgress (heap s ! r))"]
  obtain s1 where s1: "release n (v * pvalue (releaseProgress (heap s ! r))) s = Done s1"
    "noteOnList s1 = noteOnList s" "noteOffList s1 = noteOffList s" "clock s1 = clock s"
    "s_geR s1 = s_geR s" "length (heap s1) = length (heap s)" "quiet s1 = quiet s"
    by blast
  have "stack (noteOffList s1) n \<noteq> []"
    using Cons.prems s1(3) by simp
  from Cons.IH [OF this] s1 show ?case
    by auto
qed

lemma geR_notes_effect:
  assumes "\<forall>n \<in> set ns. stack (noteOffList s) n \<noteq> []"
  shows "\<exists>s'. geR_notes v ns s = Done s' \<and>
           noteOnList s' = noteOnList s \<and> noteOffList s' = noteOffList s \<and>
           clock s' = clock s \<and> s_geR s' = s_geR s \<and>
           length (heap s') = length (heap s) \<and> quiet s' = quiet s"
  using assms
proof (induction ns arbitrary: s)
  case Nil
  show ?case by simp
next
  case (Cons n ns)
  then have "stack (noteOffList s) n \<noteq> []"
    by simp
  from geR_voices_effect [OF this, of v "stack (noteOffList s) n"]
  obtain s1 where s1: "geR_voices v n (stack (noteOffList s) n) s = Done s1"
    "noteOnList s1 = noteOnList s" "noteOffList s1 = noteOffList s" "clock s1 = clock s"
    "s_geR s1 = s_geR s" "length (heap s1) = length (heap s)" "quiet s1 = quiet s"
    by blast
  have "\<forall>m \<in> set ns. stack (noteOffList s1) m \<noteq> []"
    using Cons.prems s1(3) by simp
  from Cons.IH [OF this] s1 show ?case
    by auto
qed

lemma set_geR_effect:
  "\<exists>s'. set_geR v s = Done s' \<and>
     noteOnList s' = noteOnList s \<and> noteOffList s' = noteOffList s \<and>
     clock s' = clock s \<and> s_geR s' = v \<and>
     length (heap s') = length (heap s) \<and> quiet s' = quiet s"
proof -
  let ?s2 = "foldl (\<lambda>s' t. clearTimeout t s') (s\<lparr>s_geR := v\<rparr>) (timeOutList (s\<lparr>s_geR := v\<rparr>))"
  let ?s3 = "?s2\<lparr>timeOutList := []\<rparr>"
  note c = clearTimeouts_effect [of "s\<lparr>s_geR := v\<rparr>" "timeOutList (s\<lparr>s_geR := v\<rparr>)"]
  have f: "noteOnList ?s3 = noteOnList s" "noteOffList ?s3 = noteOffList s"
    "clock ?s3 = clock s" "s_geR ?s3 = v" "heap ?s3 = heap s"
    using c by simp_all
  have q: "quiet ?s3 = quiet s"
    using f(5) by (simp add: quiet_def)
  have "\<forall>n \<in> set (getOffNoteIndexes ?s3). stack (noteOffList ?s3) n \<noteq> []"
    by (simp add: getOffNoteIndexes_def checkNoteOff_stack)
  from geR_notes_effect [OF this, of v] f q show ?thesis
    by (auto simp: set_geR_def Let_def)
qed

lemma stack_beyond: "length xs \<le> n \<Longrightarrow> stack xs n = []"
  by (simp add: stack_def elemAt_beyond)

lemma in_members: "r \<in> set (members xs) \<longleftrightarrow> (\<exists>n < length xs. r \<in> set (stack xs n))"
proof
  assume "r \<in> set (members xs)"
  then have "\<exists>n. r \<in> set (stack xs n)"
    by (rule members_stack)
  then obtain n where n: "r \<in> set (stack xs n)" ..
  have "n < length xs"
  proof (rule ccontr)
    assume "\<not> n < length xs"
    then have "stack xs n = []"
      by (simp add: stack_beyond)
    with n show False
      by simp
  qed
  with n show "\<exists>n < length xs. r \<in> set (stack xs n)"
    by (intro exI conjI)
next
  assume "\<exists>n < length xs. r \<in> set (stack xs n)"
  then obtain n where "r \<in> set (stack xs n)"
    by (elim exE conjE)
  then show "r \<in> set (members xs)"
    using stack_subset_members [of xs n] by (rule set_mp [rotated])
qed

lemma set_members: "set (members xs) = {r. \<exists>n < length xs. r \<in> set (stack xs n)}"
  by (rule set_eqI) (simp add: in_members)

lemma panicOn_effect:
  "noteOffList (panicOn s i) = noteOffList s \<and> timeOutList (panicOn s i) = timeOutList s \<and>
   pending (panicOn s i) = pending s \<and> clock (panicOn s i) = clock s \<and>
   nextTimeout (panicOn s i) = nextTimeout s \<and> s_geR (panicOn s i) = s_geR s \<and>
   length (heap (panicOn s i)) = length (heap s) \<and>
   length (noteOnList (panicOn s i)) = length (noteOnList s) \<and>
   (\<forall>n. stack (noteOnList (panicOn s i)) n = (if n = i then [] else stack (noteOnList s) n)) \<and>
   quiet (panicOn s i) =
     quiet s \<union> {r \<in> set (stack (noteOnList s) i). r < length (heap s)}"
proof (cases "checkNoteOn i s")
  case False
  then show ?thesis
    by (auto simp: panicOn_def checkNoteOn_stack)
next
  case True
  then have "i < length (noteOnList s)"
    using elemAt_beyond [of "noteOnList s" i]
    by (cases "i < length (noteOnList s)") (auto simp: checkNoteOn_def)
  then have len: "length (assign (noteOnList s) i []) = length (noteOnList s)"
    by (simp add: length_assign)
  have q: "\<And>s1 a. quiet (s1\<lparr>noteOnList := a\<rparr>) = quiet s1"
    by (simp add: quiet_def)
  from True show ?thesis
    by (simp add: panicOn_def len q quiet_stopVoices stack_assign)
qed

lemma panicOff_effect:
  "noteOnList (panicOff s i) = noteOnList s \<and> timeOutList (panicOff s i) = timeOutList s \<and>
   pending (panicOff s i) = pending s \<and> clock (panicOff s i) = clock s \<and>
   nextTimeout (panicOff s i) = nextTimeout s \<and> s_geR (panicOff s i) = s_geR s \<and>
   length (heap (panicOff s i)) = length (heap s) \<and>
   length (noteOffList (panicOff s i)) = length (noteOffList s) \<and>
   (\<forall>n. stack (noteOffList (panicOff s i)) n = (if n = i then [] else stack (noteOffList s) n)) \<and>
   quiet (panicOff s i) =
     quiet s \<union> {r \<in> set (stack (noteOffList s) i). r < length (heap s)}"
proof (cases "checkNoteOff i s")
  case False
  then show ?thesis
    by (auto simp: panicOff_def checkNoteOff_stack)
next
  case True
  then have "i < length (noteOffList s)"
    using elemAt_beyond [of "noteOffList s" i]
    by (cases "i < length (noteOffList s)") (auto simp: checkNoteOff_def)
  then have len: "length (assign (noteOffList s) i []) = length (noteOffList s)"
    by (simp add: length_assign)
  have q: "\<And>s1 a. quiet (s1\<lparr>noteOffList := a\<rparr>) = quiet s1"
    by (simp add: quiet_def)
  from True show ?thesis
    by (simp add: panicOff_def len q quiet_stopVoices stack_assign)
qed

lemma panicOn_loop:
  "noteOffList (foldl panicOn s [0..<k]) = noteOffList s \<and>
   timeOutList (foldl panicOn s [0..<k]) = timeOutList s \<and>
   pending (foldl panicOn s [0..<k]) = pending s \<and>
   clock (foldl panicOn s [0..<k]) = clock s \<and>
   nextTimeout (foldl panicOn s [0..<k]) = nextTimeout s \<and>
   s_geR (foldl panicOn s [0..<k]) = s_geR s \<and>
   length (heap (foldl panicOn s [0..<k])) = length (heap s) \<and>
   (\<forall>n. stack (noteOnList (foldl panicOn s [0..<k])) n =
          (if n < k then [] else stack (noteOnList s) n)) \<and>
   quiet (foldl panicOn s [0..<k]) =
     quiet s \<union> {r. r < length (heap s) \<and> (\<exists>n < k. r \<in> set (stack (noteOnList s) n))}"
proof (induction k)
  case 0
  show ?case by simp
next
  case (Suc k)
  let ?s' = "foldl panicOn s [0..<k]"
  note e = panicOn_effect [of ?s' k]
  have st: "stack (noteOnList ?s') k = stack (noteOnList s) k"
    using Suc by simp
  have "quiet (panicOn ?s' k) =
          quiet s \<union> {r. r < length (heap s) \<and> (\<exists>n < Suc k. r \<in> set (stack (noteOnList s) n))}"
    using e Suc st by (auto simp: less_Suc_eq)
  moreover have "\<forall>n. stack (noteOnList (panicOn ?s' k)) n =
          (if n < Suc k then [] else stack (noteOnList s) n)"
    using e Suc by (auto simp: less_Suc_eq)
  ultimately show ?case
    using e Suc by simp
qed

lemma panicOff_loop:
  "noteOnList (foldl panicOff s [0..<k]) = noteOnList s \<and>
   timeOutList (foldl panicOff s [0..<k]) = timeOutList s \<and>
   pending (foldl panicOff s [0..<k]) = pending s \<and>
   clock (foldl panicOff s [0..<k]) = clock s \<and>
   nextTimeout (foldl panicOff s [0..<k]) = nextTimeout s \<and>
   s_geR (foldl panicOff s [0..<k]) = s_geR s \<and>
   length (heap (foldl panicOff s [0..<k])) = length (heap s) \<and>
   (\<forall>n. stack (noteOffList (foldl panicOff s [0..<k])) n =
          (if n < k then [] else stack (noteOffList s) n)) \<and>
   quiet (foldl panicOff s [0..<k]) =
     quiet s \<union> {r. r < length (heap s) \<and> (\<exists>n < k. r \<in> set (stack (noteOffList s) n))}"
proof (induction k)
  case 0
  show ?case by simp
next
  case (Suc k)
  let ?s' = "foldl panicOff s [0..<k]"
  note e = panicOff_effect [of ?s' k]
  have st: "stack (noteOffList ?s') k = stack (noteOffList s) k"
    using Suc by simp
  have "quiet (panicOff ?s' k) =
          quiet s \<union> {r. r < length (heap s) \<and> (\<exists>n < Suc k. r \<in> set (stack (noteOffList s) n))}"
    using e Suc st by (auto simp: less_Suc_eq)
  moreover have "\<forall>n. stack (noteOffList (panicOff ?s' k)) n =
          (if n < Suc k then [] else stack (noteOffList s) n)"
    using e Suc by (auto simp: less_Suc_eq)
  ultimately show ?case
    using e Suc by simp
qed

lemma panic_effect:
  "noteOnList (panic s) = [] \<and> noteOffList (panic s) = [] \<and> timeOutList (panic s) = [] \<and>
   pending (panic s) = filter (\<lambda>t. tid t \<notin> set (timeOutList s)) (pending s) \<and>
   clock (panic s) = clock s \<and> nextTimeout (panic s) = nextTimeout s \<and>
   s_geR (panic s) = s_geR s \<and> length (heap (panic s)) = length (heap s) \<and>
   quiet (panic s) =
     quiet s \<union> {r \<in> set (members (noteOnList s) @ members (noteOffList s)). r < length (heap s)}"
proof -
  let ?s1 = "foldl panicOn s [0..<length (noteOnList s)]"
  let ?s2 = "foldl panicOff ?s1 [0..<length (noteOffList ?s1)]"
  let ?s3 = "foldl (\<lambda>s' t. clearTimeout t s') ?s2 (timeOutList ?s2)"
  note a = panicOn_loop [of s "length (noteOnList s)"]
  note b = panicOff_loop [of ?s1 "length (noteOffList ?s1)"]
  note c = clearTimeouts_effect [of ?s2 "timeOutList ?s2"]
  have q1: "quiet ?s1 = quiet s \<union> {r \<in> set (members (noteOnList s)). r < length (heap s)}"
    using a by (auto simp: set_members)
  have q2: "quiet ?s2 = quiet ?s1 \<union> {r \<in> set (members (noteOffList s)). r < length (heap s)}"
    using a b by (auto simp: set_members)
  have q3: "quiet (?s3\<lparr>noteOnList := [], noteOffList := [], timeOutList := []\<rparr>) = quiet ?s2"
    using c by (simp add: quiet_def)
  have q: "quiet (panic s) =
     quiet s \<union> {r \<in> set (members (noteOnList s) @ members (noteOffList s)). r < length (heap s)}"
    unfolding panic_def Let_def q3 q2 q1 by auto
  have p: "pending (panic s) = filter (\<lambda>t. tid t \<notin> set (timeOutList s)) (pending s)"
    using a b c by (simp add: panic_def Let_def)
  have rest: "noteOnList (panic s) = [] \<and> noteOffList (panic s) = [] \<and> timeOutList (panic s) = [] \<and>
   clock (panic s) = clock s \<and> nextTimeout (panic s) = nextTimeout s \<and>
   s_geR (panic s) = s_geR s \<and> length (heap (panic s)) = length (heap s)"
    using a b c by (simp add: panic_def Let_def)
  from q p rest show ?thesis
    by blast
qed

section \<open>The membership invariant\<close>

lemma kept_same: "kept s \<Longrightarrow> same s s' \<Longrightarrow> kept s'"
  by (simp add: kept_def same_def listed_def)

lemma kept_clock: "kept (s\<lparr>clock := c\<rparr>) = kept s"
  by (simp add: kept_def listed_def quiet_def)

lemma kept_new: "kept (newSynthesizer ot ft)"
  by (simp add: kept_def listed_def newSynthesizer_def)

lemma kept_noteOn:
  assumes "kept s"
  shows "kept (noteOn n s)"
proof -
  let ?L = "length (heap s)"
  have "mset (members (noteOnList (noteOn n s))) + mset (stack (noteOnList s) n) =
          mset (members (noteOnList s)) + mset (stack (noteOnList s) n @ [?L])"
    by (simp add: noteOn_lists members_assign)
  then have "mset (members (noteOnList (noteOn n s))) = mset (members (noteOnList s)) + {#?L#}"
    by simp
  then have m: "mset (listed (noteOn n s)) = mset (?L # listed s)"
    by (simp add: listed_def noteOn_lists)
  have fresh: "?L \<notin> set (listed s)"
    using assms by (auto simp: kept_def)
  have d: "distinct (listed (noteOn n s))"
    using mset_eq_imp_distinct_iff [OF m] fresh assms by (simp add: kept_def)
  have st: "set (listed (noteOn n s)) = insert ?L (set (listed s))"
    using mset_eq_setD [OF m] by simp
  have v: "\<forall>r \<in> set (listed (noteOn n s)). r < length (heap (noteOn n s))"
    using assms st by (auto simp: kept_def noteOn_heap)
  have q: "\<forall>r < length (heap (noteOn n s)). r \<in> set (listed (noteOn n s)) \<or> r \<in> quiet (noteOn n s)"
  proof (intro allI impI)
    fix r
    assume "r < length (heap (noteOn n s))"
    then consider "r = ?L" | "r < ?L"
      by (auto simp: noteOn_heap less_Suc_eq)
    then show "r \<in> set (listed (noteOn n s)) \<or> r \<in> quiet (noteOn n s)"
    proof cases
      case 1
      then show ?thesis using st by simp
    next
      case 2
      then have "r \<in> set (listed s) \<or> r \<in> quiet s"
        using assms by (simp add: kept_def)
      then show ?thesis
        using st noteOn_more(2) [OF 2, of n] by auto
    qed
  qed
  from d v q show ?thesis
    by (simp add: kept_def)
qed

lemma kept_noteOff:
  assumes "kept s"
  shows "kept (after (noteOff n s))"
proof (cases "stack (noteOnList s) n = []")
  case True
  with assms show ?thesis
    by (simp add: noteOff_idle)
next
  case False
  then obtain hs r where hs: "stack (noteOnList s) n = hs @ [r]"
    by (metis rev_exhaust)
  from noteOff_effect [OF hs] obtain s' where s':
    "noteOff n s = Done s'"
    "noteOnList s' = assign (noteOnList s) n hs"
    "noteOffList s' = assign (noteOffList s) n (stack (noteOffList s) n @ [r])"
    "length (heap s') = length (heap s)" "quiet s' = quiet s"
    by blast
  have a: "mset (members (noteOnList s')) + mset (hs @ [r]) = mset (members (noteOnList s)) + mset hs"
    using members_assign [of "noteOnList s" n hs] hs s'(2) by simp
  have b: "mset (members (noteOffList s')) + mset (stack (noteOffList s) n) =
           mset (members (noteOffList s)) + mset (stack (noteOffList s) n @ [r])"
    using members_assign [of "noteOffList s" n "stack (noteOffList s) n @ [r]"] s'(3) by simp
  from a have a': "mset (members (noteOnList s')) + {#r#} = mset (members (noteOnList s))"
    by simp
  from b have b': "mset (members (noteOffList s')) = mset (members (noteOffList s)) + {#r#}"
    by simp
  have m: "mset (listed s') = mset (listed s)"
    unfolding listed_def mset_append b' a' [symmetric] by simp
  have "kept s'"
    using assms mset_eq_imp_distinct_iff [OF m] mset_eq_setD [OF m] s'(4,5)
    by (simp add: kept_def)
  with s'(1) show ?thesis
    by simp
qed

lemma kept_panic:
  assumes "kept s"
  shows "kept (panic s)"
proof -
  note e = panic_effect [of s]
  have l: "listed (panic s) = []"
    using e by (simp add: listed_def)
  have "\<forall>r < length (heap (panic s)). r \<in> quiet (panic s)"
    using assms e by (auto simp: kept_def listed_def)
  with l show ?thesis
    by (simp add: kept_def)
qed

lemma kept_set_geR:
  assumes "kept s"
  shows "kept (after (set_geR v s))"
proof -
  from set_geR_effect [of v s] obtain s' where
    "set_geR v s = Done s'" "noteOnList s' = noteOnList s" "noteOffList s' = noteOffList s"
    "length (heap s') = length (heap s)" "quiet s' = quiet s"
    by blast
  with assms show ?thesis
    by (simp add: kept_def listed_def)
qed

lemma kept_fire:
  assumes "kept s"
  shows "kept (fire t s)"
proof (cases "stack (noteOffList s) (tnote t)")
  case Nil
  with fire_effect [of t s] assms show ?thesis
    by (simp add: kept_def listed_def)
next
  case (Cons r rest)
  with fire_effect [of t s] have e:
    "noteOnList (fire t s) = noteOnList s"
    "noteOffList (fire t s) = assign (noteOffList s) (tnote t) rest"
    "length (heap (fire t s)) = length (heap s)"
    "quiet (fire t s) = quiet s \<union> (if r < length (heap s) then {r} else {})"
    by simp_all
  have "mset (members (noteOffList (fire t s))) + mset (r # rest) =
        mset (members (noteOffList s)) + mset rest"
    using members_assign [of "noteOffList s" "tnote t" rest] Cons e(2) by simp
  then have "mset (members (noteOffList (fire t s))) + {#r#} = mset (members (noteOffList s))"
    by simp
  then have m: "mset (listed s) = mset (r # listed (fire t s))"
    by (simp add: listed_def e(1))
  have d: "distinct (r # listed (fire t s))"
    using mset_eq_imp_distinct_iff [OF m] assms by (simp add: kept_def)
  have st: "set (listed s) = insert r (set (listed (fire t s)))"
    using mset_eq_setD [OF m] by simp
  have rv: "r < length (heap s)"
    using assms st by (auto simp: kept_def)
  have "\<forall>x < length (heap (fire t s)). x \<in> set (listed (fire t s)) \<or> x \<in> quiet (fire t s)"
    using assms st e(3,4) rv by (auto simp: kept_def)
  moreover have "\<forall>x \<in> set (listed (fire t s)). x < length (heap (fire t s))"
    using assms st e(3) by (auto simp: kept_def)
  ultimately show ?thesis
    using d by (simp add: kept_def)
qed

lemma kept_elapse:
  assumes "kept s"
  shows "kept (elapse ms s)"
proof -
  have "kept (runTimers (clock s + max 0 ms) s)"
    using assms by (rule runTimers_keeps) (rule kept_fire)
  then show ?thesis
    by (simp add: elapse_def kept_clock)
qed

lemma kept_step: "kept s \<Longrightarrow> kept (step s e)"
proof (cases e)
  case (NoteOn n)
  assume "kept s"
  then show ?thesis using NoteOn by (simp add: kept_noteOn)
next
  case (NoteOff n)
  assume "kept s"
  then show ?thesis using NoteOff by (simp add: kept_noteOff)
next
  case Panic
  assume "kept s"
  then show ?thesis using Panic by (simp add: kept_panic)
next
  case (SetGeA v)
  assume "kept s"
  then show ?thesis using SetGeA kept_same [OF _ same_set_geA] by simp
next
  case (SetGeD v)
  assume "kept s"
  then show ?thesis using SetGeD kept_same [OF _ same_set_geD] by simp
next
  case (SetGeS v)
  assume "kept s"
  then show ?thesis using SetGeS kept_same [OF _ same_set_geS] by simp
next
  case (SetGeR v)
  assume "kept s"
  then show ?thesis using SetGeR by (simp add: kept_set_geR)
next
  case (SetVoices k)
  assume "kept s"
  then show ?thesis using SetVoices kept_same [OF _ same_params(1)] by simp
next
  case (SetDetune d)
  assume "kept s"
  then show ?thesis using SetDetune kept_same [OF _ same_params(2)] by simp
next
  case (Elapse ms)
  assume "kept s"
  then show ?thesis using Elapse by (simp add: kept_elapse)
next
  case (Render r g a d rl)
  assume "kept s"
  then show ?thesis using Render kept_same [OF _ same_render] by simp
qed

lemma kept_run: "kept s \<Longrightarrow> kept (run s es)"
  unfolding run_def by (induction es arbitrary: s) (simp_all add: kept_step)

lemma members_distinct_stack: "distinct (members xs) \<Longrightarrow> distinct (stack xs n)"
proof (induction xs n rule: elemAt.induct)
  case (1 i)
  show ?case by simp
next
  case (2 x xs)
  then show ?case by (cases x) (simp_all add: stack_def)
next
  case (3 x xs i)
  then show ?case by (cases x) (simp_all add: stack_def)
qed

lemma members_disjoint_stacks:
  "distinct (members xs) \<Longrightarrow> n \<noteq> m \<Longrightarrow> set (stack xs n) \<inter> set (stack xs m) = {}"
proof (induction xs arbitrary: n m)
  case Nil
  show ?case by simp
next
  case (Cons x xs)
  have tl: "distinct (members xs)"
    using Cons.prems(1) by (cases x) simp_all
  have hd: "set (stack (x # xs) 0) \<inter> set (members xs) = {}"
    using Cons.prems(1) by (cases x) (auto simp: stack_def)
  have up: "\<And>k. set (stack (x # xs) (Suc k)) \<subseteq> set (members xs)"
    using stack_subset_members [of xs] by (simp add: stack_def)
  show ?case
  proof (cases n)
    case 0
    then obtain k where "m = Suc k"
      using Cons.prems(2) by (cases m) auto
    with 0 hd up [of k] show ?thesis by blast
  next
    case (Suc j)
    show ?thesis
    proof (cases m)
      case 0
      with Suc hd up [of j] show ?thesis by blast
    next
      case (Suc k)
      with \<open>n = Suc j\<close> Cons.prems(2) have "j \<noteq> k" by simp
      from Cons.IH [OF tl this] Suc \<open>n = Suc j\<close> show ?thesis
        by (simp add: stack_def)
    qed
  qed
qed

lemma listed_stacks:
  assumes "distinct (listed s)"
  shows "distinct (stack (noteOnList s) n)" "distinct (stack (noteOffList s) n)"
    "set (stack (noteOnList s) n) \<inter> set (stack (noteOffList s) m) = {}"
    "n \<noteq> m \<Longrightarrow> set (stack (noteOnList s) n) \<inter> set (stack (noteOnList s) m) = {}"
    "n \<noteq> m \<Longrightarrow> set (stack (noteOffList s) n) \<inter> set (stack (noteOffList s) m) = {}"
proof -
  from assms have d: "distinct (members (noteOnList s))" "distinct (members (noteOffList s))"
    and x: "set (members (noteOnList s)) \<inter> set (members (noteOffList s)) = {}"
    by (simp_all add: listed_def)
  show "distinct (stack (noteOnList s) n)" "distinct (stack (noteOffList s) n)"
    using d by (simp_all add: members_distinct_stack)
  show "set (stack (noteOnList s) n) \<inter> set (stack (noteOffList s) m) = {}"
    using x stack_subset_members [of "noteOnList s" n] stack_subset_members [of "noteOffList s" m]
    by blast
  show "n \<noteq> m \<Longrightarrow> set (stack (noteOnList s) n) \<inter> set (stack (noteOnList s) m) = {}"
    using d(1) by (rule members_disjoint_stacks)
  show "n \<noteq> m \<Longrightarrow> set (stack (noteOffList s) n) \<inter> set (stack (noteOffList s) m) = {}"
    using d(2) by (rule members_disjoint_stacks)
qed

lemma unlisted:
  "r \<notin> set (listed s) \<longleftrightarrow>
     (\<forall>n. r \<notin> set (stack (noteOnList s) n) \<and> r \<notin> set (stack (noteOffList s) n))"
proof -
  have a: "r \<in> set (members xs) \<longleftrightarrow> (\<exists>n. r \<in> set (stack xs n))" for xs :: "nat list jsarray"
    using members_stack [of r xs] stack_subset_members [of xs] by (meson subsetD)
  show ?thesis
    by (auto simp: listed_def a)
qed

text \<open>
  C5. In every state that a run of calls and timer firings reaches from a new
  synthesizer (\<open>noteOn\<close>, \<open>noteOff\<close>, \<open>panic\<close>, the four envelope setters, the voice and
  detune setters, time passing with the release timeouts that come due, and the audio
  thread rendering), no voice is twice in a stack, no voice is in a held and in a
  releasing stack, no voice is in the stacks of two notes, and a voice that has been
  created and is in no stack has had all its oscillators stopped.
\<close>

theorem registry_membership:
  "(\<forall>n m. distinct (stack (noteOnList (run (newSynthesizer ot ft) es)) n) \<and>
     distinct (stack (noteOffList (run (newSynthesizer ot ft) es)) n) \<and>
     set (stack (noteOnList (run (newSynthesizer ot ft) es)) n) \<inter>
       set (stack (noteOffList (run (newSynthesizer ot ft) es)) m) = {} \<and>
     (n \<noteq> m \<longrightarrow>
        set (stack (noteOnList (run (newSynthesizer ot ft) es)) n) \<inter>
          set (stack (noteOnList (run (newSynthesizer ot ft) es)) m) = {} \<and>
        set (stack (noteOffList (run (newSynthesizer ot ft) es)) n) \<inter>
          set (stack (noteOffList (run (newSynthesizer ot ft) es)) m) = {})) \<and>
   (\<forall>r < length (heap (run (newSynthesizer ot ft) es)).
      (\<forall>n. r \<notin> set (stack (noteOnList (run (newSynthesizer ot ft) es)) n) \<and>
           r \<notin> set (stack (noteOffList (run (newSynthesizer ot ft) es)) n)) \<longrightarrow>
      silent (heap (run (newSynthesizer ot ft) es) ! r))"
proof -
  let ?s = "run (newSynthesizer ot ft) es"
  have k: "kept ?s"
    using kept_new by (rule kept_run)
  then have d: "distinct (listed ?s)"
    by (simp add: kept_def)
  have "\<forall>r < length (heap ?s).
      (\<forall>n. r \<notin> set (stack (noteOnList ?s) n) \<and> r \<notin> set (stack (noteOffList ?s) n)) \<longrightarrow>
      silent (heap ?s ! r)"
    using k unfolding kept_def unlisted [symmetric] by (auto simp: quiet_def)
  with listed_stacks [OF d] show ?thesis
    by blast
qed


theorem registry_membership_witness:
  "stack (noteOnList (run (newSynthesizer ''sine'' ''lowpass'')
      [NoteOn 60, NoteOn 60, NoteOff 60, Elapse 2000])) 60 = [0] \<and>
   stack (noteOffList (run (newSynthesizer ''sine'' ''lowpass'')
      [NoteOn 60, NoteOn 60, NoteOff 60, Elapse 2000])) 60 = [] \<and>
   silent (heap (run (newSynthesizer ''sine'' ''lowpass'')
      [NoteOn 60, NoteOn 60, NoteOff 60, Elapse 2000]) ! 1)"
proof -
  let ?s = "run (newSynthesizer ''sine'' ''lowpass'') [NoteOn 60, NoteOn 60, NoteOff 60, Elapse 2000]"
  have on: "members (noteOnList ?s) = [0]"
    by code_simp
  have off: "members (noteOffList ?s) = []"
    by code_simp
  have len: "length (heap ?s) = 2"
    by code_simp
  have "1 \<notin> set (listed ?s)"
    by (simp add: listed_def on off)
  then have nowhere: "\<forall>n. 1 \<notin> set (stack (noteOnList ?s) n) \<and> 1 \<notin> set (stack (noteOffList ?s) n)"
    by (simp add: unlisted)
  have "\<forall>r < length (heap ?s).
      (\<forall>n. r \<notin> set (stack (noteOnList ?s) n) \<and> r \<notin> set (stack (noteOffList ?s) n)) \<longrightarrow>
      silent (heap ?s ! r)"
    using registry_membership [of "''sine''" "''lowpass''" "[NoteOn 60, NoteOn 60, NoteOff 60, Elapse 2000]"]
    by (rule conjunct2)
  with nowhere len have q: "silent (heap ?s ! 1)"
    by simp
  have a: "stack (noteOnList ?s) 60 = [0]"
    by code_simp
  have b: "stack (noteOffList ?s) 60 = []"
    by code_simp
  from a b q show ?thesis
    by blast
qed

section \<open>The order of a held stack\<close>

lemma ascending_same_list: "ascending s \<Longrightarrow> noteOnList s' = noteOnList s \<Longrightarrow> ascending s'"
  by (simp add: ascending_def)

lemma noteOnList_elapse: "noteOnList (elapse ms s) = noteOnList s"
proof -
  have "noteOnList (runTimers (clock s + max 0 ms) s) = noteOnList s"
    by (rule runTimers_keeps [where P = "\<lambda>s'. noteOnList s' = noteOnList s"])
       (simp_all add: fire_effect)
  then show ?thesis
    by (simp add: elapse_def)
qed

lemma ascending_noteOn:
  assumes "ascending s" and "kept s"
  shows "ascending (noteOn n s)"
proof -
  have "\<forall>q \<in> set (stack (noteOnList s) n). q < length (heap s)"
    using assms(2) stack_subset_members [of "noteOnList s" n]
    by (auto simp: kept_def listed_def)
  then have "sorted_wrt (<) (stack (noteOnList s) n @ [length (heap s)])"
    using assms(1) by (simp add: ascending_def sorted_wrt_append)
  then show ?thesis
    using assms(1) by (simp add: ascending_def noteOn_lists stack_assign)
qed

lemma ascending_noteOff:
  assumes "ascending s"
  shows "ascending (after (noteOff n s))"
proof (cases "stack (noteOnList s) n = []")
  case True
  with assms show ?thesis
    by (simp add: noteOff_idle)
next
  case False
  then obtain hs r where hs: "stack (noteOnList s) n = hs @ [r]"
    by (metis rev_exhaust)
  from noteOff_effect [OF hs] obtain s' where s':
    "noteOff n s = Done s'" "noteOnList s' = assign (noteOnList s) n hs"
    by blast
  have "sorted_wrt (<) hs"
    using assms hs by (metis ascending_def sorted_wrt_append)
  then have "ascending s'"
    using assms s'(2) by (simp add: ascending_def stack_assign)
  with s'(1) show ?thesis
    by simp
qed

lemma ascending_step:
  assumes "ascending s" and "kept s"
  shows "ascending (step s e)"
proof (cases e)
  case (NoteOn n)
  with assms show ?thesis by (simp add: ascending_noteOn)
next
  case (NoteOff n)
  with assms show ?thesis by (simp add: ascending_noteOff)
next
  case Panic
  then show ?thesis using panic_effect [of s] by (simp add: ascending_def)
next
  case (SetGeA v)
  then show ?thesis
    using assms(1) same_set_geA [of s v] by (simp add: ascending_def same_def)
next
  case (SetGeD v)
  then show ?thesis
    using assms(1) same_set_geD [of s v] by (simp add: ascending_def same_def)
next
  case (SetGeS v)
  then show ?thesis
    using assms(1) same_set_geS [of s v] by (simp add: ascending_def same_def)
next
  case (SetGeR v)
  from set_geR_effect [of v s] obtain s' where
    "set_geR v s = Done s'" "noteOnList s' = noteOnList s"
    by blast
  with SetGeR assms(1) show ?thesis
    by (simp add: ascending_def)
next
  case (SetVoices k)
  with assms(1) show ?thesis by (simp add: ascending_def)
next
  case (SetDetune d)
  with assms(1) show ?thesis by (simp add: ascending_def)
next
  case (Elapse ms)
  with assms(1) show ?thesis by (simp add: ascending_def noteOnList_elapse)
next
  case (Render r g a d rl)
  then show ?thesis
    using assms(1) same_render [of s r g a d rl] by (simp add: ascending_def same_def)
qed

lemma ascending_run:
  "ascending s \<Longrightarrow> kept s \<Longrightarrow> ascending (run s es)"
  unfolding run_def
  by (induction es arbitrary: s) (simp_all add: ascending_step kept_step)

lemma ascending_new: "ascending (newSynthesizer ot ft)"
  by (simp add: ascending_def newSynthesizer_def)

text \<open>
  C3. In a state \<open>s\<close> that a run reaches from a new synthesizer, with a voice held on
  note \<open>n\<close>: \<open>noteOff n\<close> returns; it takes the last voice off the held stack of \<open>n\<close> and
  leaves the others in place; that voice was created after every voice that stays held
  on \<open>n\<close> (references are handed out in creation order); and it is appended to the
  releasing stack of \<open>n\<close>.
\<close>

theorem noteOff_lifo:
  assumes "s = run (newSynthesizer ot ft) es" and "stack (noteOnList s) n \<noteq> []"
  shows "\<exists>s'. noteOff n s = Done s' \<and>
           stack (noteOnList s) n = stack (noteOnList s') n @ [last (stack (noteOnList s) n)] \<and>
           (\<forall>q \<in> set (stack (noteOnList s') n). q < last (stack (noteOnList s) n)) \<and>
           stack (noteOffList s') n = stack (noteOffList s) n @ [last (stack (noteOnList s) n)]"
proof -
  from assms(2) obtain hs r where hs: "stack (noteOnList s) n = hs @ [r]"
    by (metis rev_exhaust)
  from noteOff_effect [OF hs] obtain s' where s':
    "noteOff n s = Done s'" "noteOnList s' = assign (noteOnList s) n hs"
    "noteOffList s' = assign (noteOffList s) n (stack (noteOffList s) n @ [r])"
    by blast
  have "ascending s"
    unfolding assms(1) using ascending_new kept_new by (rule ascending_run)
  then have "sorted_wrt (<) (hs @ [r])"
    using hs by (metis ascending_def)
  then have newer: "\<forall>q \<in> set hs. q < r"
    by (simp add: sorted_wrt_append)
  from s' hs newer show ?thesis
    by (simp add: stack_assign)
qed

theorem noteOff_lifo_witness:
  "\<exists>s'. noteOff 60 (run (newSynthesizer ''sine'' ''lowpass'') [NoteOn 60, NoteOn 60]) = Done s' \<and>
     stack (noteOnList s') 60 = [0] \<and> stack (noteOffList s') 60 = [1]"
proof -
  let ?s = "run (newSynthesizer ''sine'' ''lowpass'') [NoteOn 60, NoteOn 60]"
  have held: "stack (noteOnList ?s) 60 = [0, 1]"
    by code_simp
  have rel: "stack (noteOffList ?s) 60 = []"
    by code_simp
  have ne: "stack (noteOnList ?s) 60 \<noteq> []"
    using held by simp
  from noteOff_lifo [OF refl ne] obtain s' where
    "noteOff 60 ?s = Done s'"
    "stack (noteOnList ?s) 60 = stack (noteOnList s') 60 @ [last (stack (noteOnList ?s) 60)]"
    "stack (noteOffList s') 60 = stack (noteOffList ?s) 60 @ [last (stack (noteOnList ?s) 60)]"
    by blast
  then have "noteOff 60 ?s = Done s' \<and> stack (noteOnList s') 60 = [0] \<and>
    stack (noteOffList s') 60 = [1]"
    by (simp add: held rel)
  then show ?thesis ..
qed

section \<open>Timeouts that fire in the order they were armed\<close>

lemma earliest_sorted:
  "sorted (map due ts) \<Longrightarrow> earliest ts = (case ts of [] \<Rightarrow> None | t # _ \<Rightarrow> Some t)"
proof (induction ts)
  case Nil
  show ?case by simp
next
  case (Cons t ts)
  then show ?case
    by (cases ts) simp_all
qed

lemma inStep_same: "inStep s \<Longrightarrow> same s s' \<Longrightarrow> inStep s'"
  by (simp add: inStep_def same_def)

lemma inStep_noteOn: "inStep s \<Longrightarrow> inStep (noteOn n s)"
  by (simp add: inStep_def noteOn_lists)

lemma inStep_noteOff:
  assumes "inStep s"
  shows "inStep (after (noteOff n s))"
proof (cases "stack (noteOnList s) n = []")
  case True
  with assms show ?thesis
    by (simp add: noteOff_idle)
next
  case False
  then obtain hs r where hs: "stack (noteOnList s) n = hs @ [r]"
    by (metis rev_exhaust)
  let ?t = "\<lparr>tid = nextTimeout s, due = clock s + max 0 (s_geR s), delay = s_geR s, tnote = n\<rparr>"
  from noteOff_effect [OF hs] obtain s' where s':
    "noteOff n s = Done s'"
    "noteOffList s' = assign (noteOffList s) n (stack (noteOffList s) n @ [r])"
    "timeOutList s' = timeOutList s @ [nextTimeout s]"
    "pending s' = pending s @ [?t]"
    "clock s' = clock s" "s_geR s' = s_geR s"
    by blast
  have a: "timeOutList s' = map tid (pending s')"
    using assms s'(3,4) by (simp add: inStep_def)
  have b: "sorted (map due (pending s'))"
    using assms s'(4) by (auto simp: inStep_def sorted_append)
  have c: "\<forall>t \<in> set (pending s'). due t \<le> clock s' + max 0 (s_geR s')"
    using assms s'(4,5,6) by (auto simp: inStep_def)
  have d: "\<forall>m. length (filter (\<lambda>t. tnote t = m) (pending s')) = length (stack (noteOffList s') m)"
    using assms s'(2,4) by (simp add: inStep_def stack_assign)
  from a b c d s'(1) show ?thesis
    by (simp add: inStep_def)
qed

lemma inStep_fire:
  assumes "inStep s" and "earliest (pending s) = Some t"
  shows "inStep (fire t s)"
proof -
  have srt: "sorted (map due (pending s))"
    using assms(1) by (simp add: inStep_def)
  from assms(2) earliest_sorted [OF srt] obtain ts where ts: "pending s = t # ts"
    by (cases "pending s") simp_all
  have "length (filter (\<lambda>u. tnote u = tnote t) (pending s)) = length (stack (noteOffList s) (tnote t))"
    using assms(1) by (simp add: inStep_def)
  then obtain r rest where st: "stack (noteOffList s) (tnote t) = r # rest"
    using ts by (cases "stack (noteOffList s) (tnote t)") simp_all
  with fire_effect [of t s] ts have e:
    "pending (fire t s) = ts"
    "clock (fire t s) = max (clock s) (due t)"
    "s_geR (fire t s) = s_geR s"
    "noteOffList (fire t s) = assign (noteOffList s) (tnote t) rest"
    "timeOutList (fire t s) = drop 1 (timeOutList s)"
    by simp_all
  have a: "timeOutList (fire t s) = map tid (pending (fire t s))"
    using assms(1) ts e by (simp add: inStep_def)
  have b: "sorted (map due (pending (fire t s)))"
    using srt ts e by simp
  have c: "\<forall>u \<in> set (pending (fire t s)). due u \<le> clock (fire t s) + max 0 (s_geR (fire t s))"
    using assms(1) ts e by (auto simp: inStep_def)
  have d: "length (filter (\<lambda>u. tnote u = m) (pending (fire t s))) =
           length (stack (noteOffList (fire t s)) m)" for m
  proof -
    have "length (filter (\<lambda>u. tnote u = m) (t # ts)) = length (stack (noteOffList s) m)"
      using assms(1) ts by (simp add: inStep_def)
    then show ?thesis
      using e st by (cases "m = tnote t") (simp_all add: stack_assign)
  qed
  from a b c d show ?thesis
    by (simp add: inStep_def)
qed

lemma inStep_elapse:
  assumes "inStep s"
  shows "inStep (elapse ms s)"
proof -
  let ?limit = "clock s + max 0 ms"
  have "inStep (runTimers ?limit s) \<and> clock (runTimers ?limit s) \<le> ?limit"
  proof (rule runTimers_keeps [where P = "\<lambda>s'. inStep s' \<and> clock s' \<le> ?limit"])
    show "inStep s \<and> clock s \<le> ?limit"
      using assms by simp
  next
    fix s' t
    assume "inStep s' \<and> clock s' \<le> ?limit" "earliest (pending s') = Some t" "due t \<le> ?limit"
    then show "inStep (fire t s') \<and> clock (fire t s') \<le> ?limit"
      using fire_effect [of t s'] by (simp add: inStep_fire)
  qed
  then show ?thesis
    by (auto simp: elapse_def inStep_def)
qed

lemma inStep_panic:
  assumes "inStep s"
  shows "inStep (panic s)"
proof -
  have "filter (\<lambda>t. tid t \<notin> set (timeOutList s)) (pending s) = []"
    using assms by (simp add: inStep_def filter_empty_conv)
  with panic_effect [of s] show ?thesis
    by (simp add: inStep_def)
qed

lemma inStep_step:
  assumes "inStep s" and "keepsRelease e"
  shows "inStep (step s e)"
proof (cases e)
  case (NoteOn n)
  with assms show ?thesis by (simp add: inStep_noteOn)
next
  case (NoteOff n)
  with assms show ?thesis by (simp add: inStep_noteOff)
next
  case Panic
  with assms show ?thesis by (simp add: inStep_panic)
next
  case (SetGeA v)
  then show ?thesis using inStep_same [OF assms(1) same_set_geA] by simp
next
  case (SetGeD v)
  then show ?thesis using inStep_same [OF assms(1) same_set_geD] by simp
next
  case (SetGeS v)
  then show ?thesis using inStep_same [OF assms(1) same_set_geS] by simp
next
  case (SetGeR v)
  with assms(2) show ?thesis by simp
next
  case (SetVoices k)
  then show ?thesis using inStep_same [OF assms(1) same_params(1)] by simp
next
  case (SetDetune d)
  then show ?thesis using inStep_same [OF assms(1) same_params(2)] by simp
next
  case (Elapse ms)
  with assms show ?thesis by (simp add: inStep_elapse)
next
  case (Render r g a d rl)
  then show ?thesis using inStep_same [OF assms(1) same_render] by simp
qed

lemma inStep_run:
  "inStep s \<Longrightarrow> list_all keepsRelease es \<Longrightarrow> inStep (run s es)"
  unfolding run_def
  by (induction es arbitrary: s) (simp_all add: inStep_step)

lemma set_geR_new:
  "set_geR v (newSynthesizer ot ft) = Done ((newSynthesizer ot ft)\<lparr>s_geR := v\<rparr>)"
  by (simp add: set_geR_def getOffNoteIndexes_def newSynthesizer_def)

lemma inStep_new: "inStep ((newSynthesizer ot ft)\<lparr>s_geR := v\<rparr>)"
  by (simp add: inStep_def newSynthesizer_def)

lemma runTimers_idle: "pending s = [] \<Longrightarrow> runTimers limit s = s"
  by (subst runTimers.simps) simp

text \<open>
  C2. Take a new synthesizer, set its release time, and let any sequence of calls follow
  that does not set the release time again (\<open>noteOn\<close> and \<open>noteOff\<close> above all, with
  time passing and release timeouts firing in between). Then \<open>panic\<close> leaves both note
  lists and \<open>timeOutList\<close> empty, as in a new synthesizer, and no timeout pending; every
  voice that was in a held or a releasing stack has all its oscillators stopped; and
  however much time passes afterwards, no callback runs: only the clock moves.
\<close>

theorem panic_total:
  assumes "list_all keepsRelease es" and "s = run (newSynthesizer ot ft) (SetGeR v # es)"
  shows "(noteOnList (panic s), noteOffList (panic s), timeOutList (panic s), pending (panic s)) =
           (noteOnList (newSynthesizer ot ft), noteOffList (newSynthesizer ot ft),
            timeOutList (newSynthesizer ot ft), pending (newSynthesizer ot ft)) \<and>
         noteOnList (panic s) = [] \<and> noteOffList (panic s) = [] \<and>
         timeOutList (panic s) = [] \<and> pending (panic s) = [] \<and>
         (\<forall>n. \<forall>r \<in> set (stack (noteOnList s) n) \<union> set (stack (noteOffList s) n).
            silent (heap (panic s) ! r)) \<and>
         (\<forall>ms. elapse ms (panic s) = (panic s)\<lparr>clock := clock (panic s) + max 0 ms\<rparr>)"
proof -
  let ?s0 = "(newSynthesizer ot ft)\<lparr>s_geR := v\<rparr>"
  have s: "s = run ?s0 es"
    by (simp add: assms(2) run_def set_geR_new)
  have i: "inStep s"
    unfolding s using inStep_new assms(1) by (rule inStep_run)
  have "kept ?s0"
    by (simp add: kept_def listed_def quiet_def newSynthesizer_def)
  then have k: "kept s"
    unfolding s by (rule kept_run)
  note e = panic_effect [of s]
  have "filter (\<lambda>t. tid t \<notin> set (timeOutList s)) (pending s) = []"
    using i by (simp add: inStep_def filter_empty_conv)
  with e have p: "pending (panic s) = []"
    by simp
  have lists: "noteOnList (panic s) = []" "noteOffList (panic s) = []" "timeOutList (panic s) = []"
    using e by simp_all
  have stopped: "\<forall>n. \<forall>r \<in> set (stack (noteOnList s) n) \<union> set (stack (noteOffList s) n).
            silent (heap (panic s) ! r)"
  proof (intro allI ballI)
    fix n r
    assume "r \<in> set (stack (noteOnList s) n) \<union> set (stack (noteOffList s) n)"
    then have l: "r \<in> set (listed s)"
      using stack_subset_members [of "noteOnList s" n] stack_subset_members [of "noteOffList s" n]
      by (auto simp: listed_def)
    then have "r < length (heap s)"
      using k by (simp add: kept_def)
    with l e have "r \<in> quiet (panic s)"
      by (simp add: listed_def)
    then show "silent (heap (panic s) ! r)"
      by (simp add: quiet_def)
  qed
  have idle: "\<forall>ms. elapse ms (panic s) = (panic s)\<lparr>clock := clock (panic s) + max 0 ms\<rparr>"
    using p by (simp add: elapse_def runTimers_idle)
  from lists p stopped idle show ?thesis
    by (simp add: newSynthesizer_def)
qed

theorem panic_total_witness:
  "pending (run (newSynthesizer ''sine'' ''lowpass'')
     [SetGeR 1000, NoteOn 60, NoteOn 64, NoteOff 60, Elapse 500, NoteOff 64, Elapse 700, NoteOn 60])
     \<noteq> [] \<and>
   stack (noteOnList (run (newSynthesizer ''sine'' ''lowpass'')
     [SetGeR 1000, NoteOn 60, NoteOn 64, NoteOff 60, Elapse 500, NoteOff 64, Elapse 700, NoteOn 60])) 60
     = [2] \<and>
   stack (noteOffList (run (newSynthesizer ''sine'' ''lowpass'')
     [SetGeR 1000, NoteOn 60, NoteOn 64, NoteOff 60, Elapse 500, NoteOff 64, Elapse 700, NoteOn 60])) 64
     = [1] \<and>
   pending (panic (run (newSynthesizer ''sine'' ''lowpass'')
     [SetGeR 1000, NoteOn 60, NoteOn 64, NoteOff 60, Elapse 500, NoteOff 64, Elapse 700, NoteOn 60]))
     = [] \<and>
   silent (heap (panic (run (newSynthesizer ''sine'' ''lowpass'')
     [SetGeR 1000, NoteOn 60, NoteOn 64, NoteOff 60, Elapse 500, NoteOff 64, Elapse 700, NoteOn 60])) ! 2) \<and>
   silent (heap (panic (run (newSynthesizer ''sine'' ''lowpass'')
     [SetGeR 1000, NoteOn 60, NoteOn 64, NoteOff 60, Elapse 500, NoteOff 64, Elapse 700, NoteOn 60])) ! 1)"
proof -
  let ?es = "[NoteOn 60, NoteOn 64, NoteOff 60, Elapse 500, NoteOff 64, Elapse 700, NoteOn 60]"
  let ?s = "run (newSynthesizer ''sine'' ''lowpass'') (SetGeR 1000 # ?es)"
  have h: "list_all keepsRelease ?es"
    by simp
  have a: "pending ?s \<noteq> []"
    by code_simp
  have b: "stack (noteOnList ?s) 60 = [2]"
    by code_simp
  have c: "stack (noteOffList ?s) 64 = [1]"
    by code_simp
  note t = panic_total [OF h refl, of "''sine''" "''lowpass''" 1000]
  from t have p: "pending (panic ?s) = []"
    by blast
  from t have st: "\<forall>n. \<forall>r \<in> set (stack (noteOnList ?s) n) \<union> set (stack (noteOffList ?s) n).
            silent (heap (panic ?s) ! r)"
    by blast
  from st b have q2: "silent (heap (panic ?s) ! 2)"
    by (metis UnI1 list.set_intros(1))
  from st c have q1: "silent (heap (panic ?s) ! 1)"
    by (metis UnI2 list.set_intros(1))
  from a b c p q2 q1 show ?thesis
    by blast
qed

section \<open>The release setter on two releasing voices\<close>

text \<open>
  C1. At 600 ms, voice 1 is first and voice 0 last in the releasing stack of note 60, and
  their release progress reads 0.4 and 0.9. Setting the release time to 2000 ms leaves
  the gain and the release progress of voice 1 with the ramps they had, which end at
  1 s, and not at \<open>0.6 + 2000 * 0.4 / 1000 = 1.4\<close> s; voice 0 gets ramps that end at
  \<open>0.6 + 2000 * 0.9 / 1000 = 2.4\<close> s; the two timeouts are armed for 800 and 1800 ms.
\<close>

theorem geR_leaves_older_voice_ramp:
  "stack (noteOffList twoReleasing) 60 = [1, 0] \<and>
   currentTime twoReleasing = 0.6 \<and>
   pvalue (releaseProgress (heap twoReleasing ! 1)) = 0.4 \<and>
   pvalue (releaseProgress (heap twoReleasing ! 0)) = 0.9 \<and>
   gain (heap (step twoReleasing (SetGeR 2000)) ! 1) = gain (heap twoReleasing ! 1) \<and>
   releaseProgress (heap (step twoReleasing (SetGeR 2000)) ! 1) =
     releaseProgress (heap twoReleasing ! 1) \<and>
   last (events (gain (heap (step twoReleasing (SetGeR 2000)) ! 1))) =
     ExponentialRampToValueAtTime 0.0001 1 \<and>
   last (events (gain (heap (step twoReleasing (SetGeR 2000)) ! 0))) =
     ExponentialRampToValueAtTime 0.0001 2.4 \<and>
   map delay (pending (step twoReleasing (SetGeR 2000))) = [800, 1800]"
  unfolding twoReleasing_def by code_simp

section \<open>The release setter after timeouts fired out of the order they were armed in\<close>

text \<open>
  C8. At 1500 ms the timeout with id 2, armed at 600 ms for the voice of note 60 and due
  at 2400 ms, is pending, and \<open>timeOutList\<close> holds id 3 only, of the timeout that fired
  at 1400 ms: that callback took the first id off the list, which was 2. Setting the
  release time to 4000 ms clears timeout 3, which is gone, and arms timeout 4 for
  1800 ms; timeout 2 stays pending. At 2400 ms it fires and stops voice 0, 900 ms before
  timeout 4 is due; when timeout 4 fires, its callback finds the stack of note 60 empty
  and throws.
\<close>

theorem geR_leaves_stale_timeout:
  "map tid (pending twoNotesReleasing) = [2] \<and>
   timeOutList twoNotesReleasing = [3] \<and>
   clock twoNotesReleasing = 1500 \<and>
   stack (noteOffList twoNotesReleasing) 60 = [0] \<and>
   map (\<lambda>t. (tid t, due t, tnote t)) (pending (step twoNotesReleasing (SetGeR 4000))) =
     [(2, 2400, 60), (4, 3300, 60)] \<and>
   \<not> silent (heap (step twoNotesReleasing (SetGeR 4000)) ! 0) \<and>
   silent (heap (run twoNotesReleasing [SetGeR 4000, Elapse 900]) ! 0) \<and>
   map tid (pending (run twoNotesReleasing [SetGeR 4000, Elapse 900])) = [4] \<and>
   stack (noteOffList (run twoNotesReleasing [SetGeR 4000, Elapse 900])) 60 = [] \<and>
   (case releaseTimeout 60 (run twoNotesReleasing [SetGeR 4000, Elapse 900]) of
      Throws e s \<Rightarrow> e = TypeError | Done s \<Rightarrow> False)"
  unfolding twoNotesReleasing_def by code_simp

section \<open>The attack setter on a held voice\<close>

lemma updVoice_params [simp]:
  "s_geA (updVoice r f s) = s_geA s"
  "s_geD (updVoice r f s) = s_geD s"
  "s_geS (updVoice r f s) = s_geS s"
  "currentTime (updVoice r f s) = currentTime s"
  by (simp_all add: updVoice_def currentTime_def)

lemma updVoice_nth:
  "r < length (heap s) \<Longrightarrow> heap (updVoice r f s) ! r = f (heap s ! r)"
  "r' \<noteq> r \<Longrightarrow> heap (updVoice r' f s) ! r = heap s ! r"
  by (simp_all add: updVoice_def)

lemma pvalue_scheduling [simp]:
  "pvalue (cancelAndHold s b p) = pvalue p"
  "pvalue (linearRampToValueAtTime x t p) = pvalue p"
  "pvalue (exponentialRampToValueAtTime x t p) = pvalue p"
  "pvalue (setValueAtTime x t p) = pvalue p"
  "pvalue (decay s p a d) = pvalue p"
  "pvalue (attack s p a) = pvalue p"
  by (simp_all add: cancelAndHold_def cancelScheduledValues_def linearRampToValueAtTime_def
      exponentialRampToValueAtTime_def setValueAtTime_def decay_def attack_def Let_def)

lemma events_cancelAndHold_now:
  "events (cancelAndHold s True p) =
     filter (\<lambda>e. atTime e < 0) (events p) @ [LinearRampToValueAtTime (pvalue p) 0]"
  by (simp add: cancelAndHold_def cancelScheduledValues_def linearRampToValueAtTime_def Let_def)

lemma events_attack_held:
  "events (attack s (cancelAndHold s True p) a) =
     filter (\<lambda>e. atTime e < 0) (events p) @
       [LinearRampToValueAtTime (pvalue p) 0,
        ExponentialRampToValueAtTime 0.993 (currentTime s + a / 1000),
        LinearRampToValueAtTime (pvalue p) (currentTime s),
        LinearRampToValueAtTime (s_geS s) (currentTime s + (s_geD s + a) / 1000)]"
  by (simp add: attack_def decay_def cancelAndHold_def cancelScheduledValues_def
      linearRampToValueAtTime_def exponentialRampToValueAtTime_def Let_def)

lemma geA_noteGroup_self:
  assumes "r < length (heap s)"
  shows "pvalue (attackProgress (heap (geA_noteGroup v r s) ! r)) =
           pvalue (attackProgress (heap s ! r))"
    and "pvalue (gain (heap (geA_noteGroup v r s) ! r)) = pvalue (gain (heap s ! r))"
    and "last (events (attackProgress (heap (geA_noteGroup v r s) ! r))) =
           LinearRampToValueAtTime 0
             (currentTime s + v * pvalue (attackProgress (heap s ! r)) / 1000)"
    and "0 < v * pvalue (attackProgress (heap s ! r)) \<Longrightarrow>
         events (gain (heap (geA_noteGroup v r s) ! r)) =
           filter (\<lambda>e. atTime e < 0) (events (gain (heap s ! r))) @
             [LinearRampToValueAtTime (pvalue (gain (heap s ! r))) 0,
              ExponentialRampToValueAtTime 0.993
                (currentTime s + v * pvalue (attackProgress (heap s ! r)) / 1000),
              LinearRampToValueAtTime (pvalue (gain (heap s ! r))) (currentTime s),
              LinearRampToValueAtTime (s_geS s)
                (currentTime s + (s_geD s + v * pvalue (attackProgress (heap s ! r))) / 1000)]"
  using assms
  by (simp_all add: geA_noteGroup_def updVoice_nth Let_def events_attack_held
      linearRampToValueAtTime_def)

lemma geA_noteGroup_frame:
  "noteOnList (geA_noteGroup v r' s) = noteOnList s"
  "length (heap (geA_noteGroup v r' s)) = length (heap s)"
  "currentTime (geA_noteGroup v r' s) = currentTime s"
  "s_geD (geA_noteGroup v r' s) = s_geD s"
  "s_geS (geA_noteGroup v r' s) = s_geS s"
  "r' \<noteq> r \<Longrightarrow> heap (geA_noteGroup v r' s) ! r = heap s ! r"
  by (simp_all add: geA_noteGroup_def updVoice_nth)

text \<open>
  The attack setter visits every held voice. Whatever was scheduled on a held voice
  whose attack progress reads \<open>p\<close>, afterwards its attack progress ramps to 0 at
  \<open>v * p\<close> ms from now, and if that is positive its gain ramps to 0.993 until then.
\<close>

lemma set_geA_retargets:
  assumes held: "r \<in> set (stack (noteOnList s) n)" and valid: "r < length (heap s)"
  shows "last (events (attackProgress (heap (set_geA v s) ! r))) =
           LinearRampToValueAtTime 0
             (currentTime s + v * pvalue (attackProgress (heap s ! r)) / 1000)"
    and "0 < v * pvalue (attackProgress (heap s ! r)) \<Longrightarrow>
         \<exists>pre. events (gain (heap (set_geA v s) ! r)) =
           pre @
             [LinearRampToValueAtTime (pvalue (gain (heap s ! r))) 0,
              ExponentialRampToValueAtTime 0.993
                (currentTime s + v * pvalue (attackProgress (heap s ! r)) / 1000),
              LinearRampToValueAtTime (pvalue (gain (heap s ! r))) (currentTime s),
              LinearRampToValueAtTime (s_geS s)
                (currentTime s + (s_geD s + v * pvalue (attackProgress (heap s ! r))) / 1000)]"
proof -
  define p where "p = pvalue (attackProgress (heap s ! r))"
  define g where "g = pvalue (gain (heap s ! r))"
  define Q :: "Synthesizer \<Rightarrow> bool" where "Q = (\<lambda>s2. noteOnList s2 = noteOnList s \<and> length (heap s2) = length (heap s) \<and>
      currentTime s2 = currentTime s \<and> s_geD s2 = s_geD s \<and> s_geS s2 = s_geS s \<and>
      pvalue (attackProgress (heap s2 ! r)) = p \<and> pvalue (gain (heap s2 ! r)) = g)"
  define T :: "Synthesizer \<Rightarrow> bool" where "T = (\<lambda>s2.
      last (events (attackProgress (heap s2 ! r))) =
        LinearRampToValueAtTime 0 (currentTime s + v * p / 1000) \<and>
      (0 < v * p \<longrightarrow>
         (\<exists>pre. events (gain (heap s2 ! r)) =
           pre @ [LinearRampToValueAtTime g 0,
                  ExponentialRampToValueAtTime 0.993 (currentTime s + v * p / 1000),
                  LinearRampToValueAtTime g (currentTime s),
                  LinearRampToValueAtTime (s_geS s) (currentTime s + (s_geD s + v * p) / 1000)])))"
  have one: "Q (geA_noteGroup v r' s2) \<and> (T s2 \<or> r' = r \<longrightarrow> T (geA_noteGroup v r' s2))"
    if "Q s2" for r' s2
  proof (cases "r' = r")
    case True
    have v2: "r < length (heap s2)"
      using that valid by (simp add: Q_def)
    from geA_noteGroup_self [OF v2, of v] that True show ?thesis
      by (simp add: Q_def T_def geA_noteGroup_frame)
  next
    case False
    with that show ?thesis
      by (simp add: Q_def T_def geA_noteGroup_frame)
  qed
  have inner: "Q (foldl (\<lambda>s2 r'. geA_noteGroup v r' s2) s1 rs) \<and>
               T (foldl (\<lambda>s2 r'. geA_noteGroup v r' s2) s1 rs)"
    if "Q s1" "T s1 \<or> r \<in> set rs" for s1 rs
    using that
  proof (induction rs arbitrary: s1)
    case Nil
    then show ?case by simp
  next
    case (Cons r' rs)
    from one [OF Cons.prems(1), of r'] Cons.prems(2)
    have "Q (geA_noteGroup v r' s1)" "T (geA_noteGroup v r' s1) \<or> r \<in> set rs"
      by auto
    from Cons.IH [OF this] show ?case
      by simp
  qed
  have innerQ: "Q (foldl (\<lambda>s2 r'. geA_noteGroup v r' s2) s1 rs) \<and>
                (T s1 \<longrightarrow> T (foldl (\<lambda>s2 r'. geA_noteGroup v r' s2) s1 rs))"
    if "Q s1" for s1 rs
    using that
  proof (induction rs arbitrary: s1)
    case Nil
    then show ?case by simp
  next
    case (Cons r' rs)
    from one [OF Cons.prems, of r']
    have q: "Q (geA_noteGroup v r' s1)" and t: "T s1 \<longrightarrow> T (geA_noteGroup v r' s1)"
      by auto
    from Cons.IH [OF q] t show ?case
      by simp
  qed
  have outer: "Q (foldl (\<lambda>s1 note. foldl (\<lambda>s2 r'. geA_noteGroup v r' s2) s1
                   (stack (noteOnList s1) note)) s1 ns) \<and>
               T (foldl (\<lambda>s1 note. foldl (\<lambda>s2 r'. geA_noteGroup v r' s2) s1
                   (stack (noteOnList s1) note)) s1 ns)"
    if "Q s1" "T s1 \<or> n \<in> set ns" for s1 ns
    using that
  proof (induction ns arbitrary: s1)
    case Nil
    then show ?case by simp
  next
    case (Cons m ns)
    let ?s2 = "foldl (\<lambda>s2 r'. geA_noteGroup v r' s2) s1 (stack (noteOnList s1) m)"
    have l: "noteOnList s1 = noteOnList s"
      using Cons.prems(1) by (simp add: Q_def)
    have q: "Q ?s2"
      using innerQ [OF Cons.prems(1)] by simp
    have "T ?s2 \<or> n \<in> set ns"
    proof (cases "T s1")
      case True
      then show ?thesis
        using innerQ [OF Cons.prems(1)] by simp
    next
      case False
      with Cons.prems(2) consider "n = m" | "n \<in> set ns"
        by auto
      then show ?thesis
      proof cases
        case 1
        then have "r \<in> set (stack (noteOnList s1) m)"
          using held l by simp
        then show ?thesis
          using inner [OF Cons.prems(1)] by simp
      next
        case 2
        then show ?thesis ..
      qed
    qed
    from Cons.IH [OF q this] show ?case
      by simp
  qed
  have start: "Q (s\<lparr>s_geA := v\<rparr>)"
    by (simp add: Q_def p_def g_def currentTime_def)
  have "stack (noteOnList s) n \<noteq> []"
    using held by auto
  moreover from this have "n < length (noteOnList s)"
    using stack_beyond [of "noteOnList s" n] by (cases "n < length (noteOnList s)") simp_all
  ultimately have "n \<in> set (getOnNoteIndexes (s\<lparr>s_geA := v\<rparr>))"
    by (simp add: getOnNoteIndexes_def checkNoteOn_stack)
  with outer [OF start] have "T (set_geA v s)"
    by (simp add: set_geA_def forEachHeld_def)
  then show "last (events (attackProgress (heap (set_geA v s) ! r))) =
           LinearRampToValueAtTime 0
             (currentTime s + v * pvalue (attackProgress (heap s ! r)) / 1000)"
    and "0 < v * pvalue (attackProgress (heap s ! r)) \<Longrightarrow>
         \<exists>pre. events (gain (heap (set_geA v s) ! r)) =
           pre @
             [LinearRampToValueAtTime (pvalue (gain (heap s ! r))) 0,
              ExponentialRampToValueAtTime 0.993
                (currentTime s + v * pvalue (attackProgress (heap s ! r)) / 1000),
              LinearRampToValueAtTime (pvalue (gain (heap s ! r))) (currentTime s),
              LinearRampToValueAtTime (s_geS s)
                (currentTime s + (s_geD s + v * pvalue (attackProgress (heap s ! r))) / 1000)]"
    by (simp_all add: T_def p_def g_def)
qed

section \<open>The voices the release setter passes over\<close>

lemma release_other_voice:
  assumes "stack (noteOffList s) m = [] \<or> r \<noteq> last (stack (noteOffList s) m)"
  shows "heap (after (release m t s)) ! r = heap s ! r"
proof (cases "elemAt (noteOffList s) m")
  case None
  then show ?thesis
    by (simp add: release_def)
next
  case (Some vs)
  show ?thesis
  proof (cases "vs = []")
    case True
    with Some show ?thesis
      by (simp add: release_def)
  next
    case False
    with Some assms have "r \<noteq> last vs"
      by (simp add: stack_def)
    with Some False show ?thesis
      by (simp add: release_def setTimeout_def Let_def updVoice_nth)
  qed
qed

lemma geR_voices_other_voice:
  assumes "stack (noteOffList s) m = [] \<or> r \<noteq> last (stack (noteOffList s) m)"
  shows "heap (after (geR_voices v m rs s)) ! r = heap s ! r \<and>
         noteOffList (after (geR_voices v m rs s)) = noteOffList s"
  using assms
proof (induction rs arbitrary: s)
  case Nil
  show ?case by simp
next
  case (Cons q rs)
  let ?t = "v * pvalue (releaseProgress (heap s ! q))"
  show ?case
  proof (cases "release m ?t s")
    case (Done s1)
    have h: "heap s1 ! r = heap s ! r"
      using release_other_voice [OF Cons.prems, of ?t] Done by simp
    have l: "noteOffList s1 = noteOffList s"
      using release_lists(2) [of m ?t s] Done by simp
    from Cons.IH [of s1] Cons.prems l h Done show ?thesis
      by simp
  next
    case (Throws e s1)
    have "heap s1 ! r = heap s ! r"
      using release_other_voice [OF Cons.prems, of ?t] Throws by simp
    moreover have "noteOffList s1 = noteOffList s"
      using release_lists(2) [of m ?t s] Throws by simp
    ultimately show ?thesis
      using Throws by simp
  qed
qed

lemma geR_notes_other_voice:
  assumes "\<forall>m. stack (noteOffList s) m = [] \<or> r \<noteq> last (stack (noteOffList s) m)"
  shows "heap (after (geR_notes v ms s)) ! r = heap s ! r"
  using assms
proof (induction ms arbitrary: s)
  case Nil
  show ?case by simp
next
  case (Cons m ms)
  from Cons.prems have "stack (noteOffList s) m = [] \<or> r \<noteq> last (stack (noteOffList s) m)"
    by blast
  note a = geR_voices_other_voice [OF this, of v "stack (noteOffList s) m"]
  show ?case
  proof (cases "geR_voices v m (stack (noteOffList s) m) s")
    case (Done s1)
    with a have "heap s1 ! r = heap s ! r" "noteOffList s1 = noteOffList s"
      by simp_all
    with Cons.IH [of s1] Cons.prems Done show ?thesis
      by simp
  next
    case (Throws e s1)
    with a show ?thesis
      by simp
  qed
qed

text \<open>
  In a state that keeps the membership invariant, the release setter changes nothing of
  a releasing voice that is not the last of its note's stack: \<open>release\<close> is called once
  for it, but works on the last voice.
\<close>

lemma set_geR_passes_over:
  assumes "kept s" and "r \<in> set (butlast (stack (noteOffList s) n))"
  shows "heap (after (set_geR v s)) ! r = heap s ! r"
proof -
  have d: "distinct (listed s)"
    using assms(1) by (simp add: kept_def)
  have ne: "stack (noteOffList s) n \<noteq> []"
    using assms(2) by auto
  have here: "r \<in> set (stack (noteOffList s) n)"
    using assms(2) by (meson in_set_butlastD)
  have other: "stack (noteOffList s) m = [] \<or> r \<noteq> last (stack (noteOffList s) m)" for m
  proof (cases "m = n")
    case True
    have "distinct (stack (noteOffList s) n)"
      using listed_stacks(2) [OF d] .
    then have "distinct (butlast (stack (noteOffList s) n) @ [last (stack (noteOffList s) n)])"
      using ne by simp
    then have "last (stack (noteOffList s) n) \<notin> set (butlast (stack (noteOffList s) n))"
      by simp
    with assms(2) True show ?thesis
      by auto
  next
    case False
    show ?thesis
    proof (cases "stack (noteOffList s) m = []")
      case True
      then show ?thesis ..
    next
      case nonempty: False
      then have "last (stack (noteOffList s) m) \<in> set (stack (noteOffList s) m)"
        by simp
      moreover have "set (stack (noteOffList s) n) \<inter> set (stack (noteOffList s) m) = {}"
        using listed_stacks(5) [OF d] False by blast
      ultimately show ?thesis
        using here by auto
    qed
  qed
  let ?s2 = "foldl (\<lambda>s' t. clearTimeout t s') (s\<lparr>s_geR := v\<rparr>) (timeOutList (s\<lparr>s_geR := v\<rparr>))"
  let ?s3 = "?s2\<lparr>timeOutList := []\<rparr>"
  note c = clearTimeouts_effect [of "s\<lparr>s_geR := v\<rparr>" "timeOutList (s\<lparr>s_geR := v\<rparr>)"]
  have f: "noteOffList ?s3 = noteOffList s" "heap ?s3 = heap s"
    using c by simp_all
  have "\<forall>m. stack (noteOffList ?s3) m = [] \<or> r \<noteq> last (stack (noteOffList ?s3) m)"
    using other f(1) by simp
  from geR_notes_other_voice [OF this, of v "getOffNoteIndexes ?s3"] f(2) show ?thesis
    by (simp add: set_geR_def Let_def)
qed

section \<open>The release setter while the timeouts are in step\<close>

lemma geR_voices_timers:
  assumes "stack (noteOffList s) m \<noteq> []" and "\<forall>t \<in> set (pending s). k \<le> tid t"
    and "k \<le> nextTimeout s"
  shows "(\<forall>t \<in> set (pending (after (geR_voices v m rs s))). k \<le> tid t) \<and>
         k \<le> nextTimeout (after (geR_voices v m rs s)) \<and>
         noteOffList (after (geR_voices v m rs s)) = noteOffList s"
  using assms
proof (induction rs arbitrary: s)
  case Nil
  then show ?case by simp
next
  case (Cons q rs)
  let ?t = "v * pvalue (releaseProgress (heap s ! q))"
  from release_effect [OF Cons.prems(1), of ?t] obtain s1 where s1:
    "release m ?t s = Done s1" "noteOffList s1 = noteOffList s"
    "pending s1 = pending s @ [\<lparr>tid = nextTimeout s, due = clock s + max 0 ?t, delay = ?t, tnote = m\<rparr>]"
    "nextTimeout s1 = Suc (nextTimeout s)"
    by blast
  have "stack (noteOffList s1) m \<noteq> []" "\<forall>t \<in> set (pending s1). k \<le> tid t" "k \<le> nextTimeout s1"
    using Cons.prems s1 by auto
  from Cons.IH [OF this] s1 show ?case
    by simp
qed

lemma geR_notes_timers:
  assumes "\<forall>m \<in> set ms. stack (noteOffList s) m \<noteq> []" and "\<forall>t \<in> set (pending s). k \<le> tid t"
    and "k \<le> nextTimeout s"
  shows "\<forall>t \<in> set (pending (after (geR_notes v ms s))). k \<le> tid t"
  using assms
proof (induction ms arbitrary: s)
  case Nil
  then show ?case by simp
next
  case (Cons m ms)
  then have ne: "stack (noteOffList s) m \<noteq> []"
    by simp
  note a = geR_voices_timers [OF ne Cons.prems(2,3), of v "stack (noteOffList s) m"]
  from geR_voices_effect [OF ne, of v "stack (noteOffList s) m"] obtain s1 where
    s1: "geR_voices v m (stack (noteOffList s) m) s = Done s1"
    by blast
  with a have "\<forall>m \<in> set ms. stack (noteOffList s1) m \<noteq> []"
    "\<forall>t \<in> set (pending s1). k \<le> tid t" "k \<le> nextTimeout s1"
    using Cons.prems(1) by simp_all
  from Cons.IH [OF this] s1 show ?case
    by simp
qed

text \<open>
  When \<open>timeOutList\<close> names every pending timeout, as it does while timeouts fire in the
  order they were armed in, the release setter cancels them all: each timeout pending
  afterwards was armed by the setter itself.
\<close>

lemma set_geR_cancels_listed:
  assumes "tid ` set (pending s) \<subseteq> set (timeOutList s)"
  shows "\<forall>t \<in> set (pending (after (set_geR v s))). nextTimeout s \<le> tid t"
proof -
  let ?s2 = "foldl (\<lambda>s' t. clearTimeout t s') (s\<lparr>s_geR := v\<rparr>) (timeOutList (s\<lparr>s_geR := v\<rparr>))"
  let ?s3 = "?s2\<lparr>timeOutList := []\<rparr>"
  note c = clearTimeouts_effect [of "s\<lparr>s_geR := v\<rparr>" "timeOutList (s\<lparr>s_geR := v\<rparr>)"]
  have "filter (\<lambda>t. tid t \<notin> set (timeOutList s)) (pending s) = []"
    using assms by (auto simp: filter_empty_conv)
  with c have p: "pending ?s3 = []"
    by simp
  have n: "nextTimeout ?s3 = nextTimeout s"
    using c by simp
  have "\<forall>m \<in> set (getOffNoteIndexes ?s3). stack (noteOffList ?s3) m \<noteq> []"
    by (simp add: getOffNoteIndexes_def checkNoteOff_stack)
  from geR_notes_timers [OF this, of "nextTimeout s" v] p n show ?thesis
    by (simp add: set_geR_def Let_def)
qed

lemma inStep_listed: "inStep s \<Longrightarrow> tid ` set (pending s) \<subseteq> set (timeOutList s)"
  by (auto simp: inStep_def)

end
